theory Spec2Isabelle
  imports Main "HOL-Library.Word"
begin

section \<open>The PNG scanline cache of the GDAL PNG driver\<close>

text \<open>
  A shallow embedding of \<^verbatim>\<open>PNGDataset\<close> and \<^verbatim>\<open>PNGRasterBand\<close>: the scanline cache
  (\<^verbatim>\<open>LoadScanline\<close>, \<^verbatim>\<open>Restart\<close>, \<^verbatim>\<open>FlushCache\<close>) and the per-band block transfer
  (\<^verbatim>\<open>IReadBlock\<close>, \<^verbatim>\<open>IWriteBlock\<close>).

  The \<^verbatim>\<open>int\<close> fields of the dataset are \<open>int\<close>. The sizes \<^verbatim>\<open>LoadScanline\<close> asks
  the allocator for and the row pointers it hands to the decoder are products the code
  forms in 32-bit \<^verbatim>\<open>int\<close>: the model takes them with their wrap-around (\<open>c_int\<close>), and a
  well-formed state is one where they do not wrap. The offsets of the band transfers
  are taken exactly: they are checked against the block they point into, and the
  blocks \<^verbatim>\<open>LoadScanline\<close> allocates in a well-formed state have fewer than \<open>2 ^ 31\<close>
  bytes. A \<^verbatim>\<open>GByte\<close> is an \<open>8 word\<close>, a
  heap block is a list of bytes and a pointer into it is an offset. Every access to a
  block is bounds-checked in the model: an access outside the block, a dereference of
  \<^verbatim>\<open>NULL\<close> and a fatal libpng error (which terminates the application, as the header
  comment of the driver says) make the operation return \<open>None\<close>.
  \<^verbatim>\<open>CPLAssert\<close> is compiled out of release builds, so an assertion is not a branch of
  the model; the theorems take the asserted range of the row as a hypothesis.
\<close>

subsection \<open>Machine integers\<close>

text \<open>
  \<open>c_int n\<close> is the value of an \<^verbatim>\<open>int\<close> expression whose exact value is \<open>n\<close>: the
  value modulo \<open>2 ^ 32\<close>, read as a signed 32-bit number. \<open>size_t n\<close> is the \<^verbatim>\<open>int\<close>
  \<open>n\<close> converted to the unsigned size an allocator takes, \<^verbatim>\<open>size_t\<close> being 64 bits
  wide: a negative \<open>n\<close> becomes a size of at least \<open>2 ^ 63\<close>.
\<close>

definition c_int :: "int \<Rightarrow> int" where
  "c_int n = sint (word_of_int n :: 32 word)"

definition size_t :: "int \<Rightarrow> nat" where
  "size_t n = unat (word_of_int n :: 64 word)"

subsection \<open>Memory blocks\<close>

type_synonym GByte = "8 word"

definition peek :: "GByte list \<Rightarrow> int \<Rightarrow> GByte option" where
  "peek blk i = (if 0 \<le> i \<and> i < int (length blk) then Some (blk ! nat i) else None)"

definition poke :: "GByte list \<Rightarrow> int \<Rightarrow> GByte \<Rightarrow> GByte list option" where
  "poke blk i b = (if 0 \<le> i \<and> i < int (length blk) then Some (blk[nat i := b]) else None)"

definition peek_bytes :: "GByte list \<Rightarrow> int \<Rightarrow> int \<Rightarrow> GByte list option" where
  "peek_bytes blk off n =
     (if 0 \<le> off \<and> 0 \<le> n \<and> off + n \<le> int (length blk)
      then Some (take (nat n) (drop (nat off) blk)) else None)"

definition poke_bytes :: "GByte list \<Rightarrow> int \<Rightarrow> GByte list \<Rightarrow> GByte list option" where
  "poke_bytes blk off src =
     (if 0 \<le> off \<and> off + int (length src) \<le> int (length blk)
      then Some (take (nat off) blk @ src @ drop (nat off + length src) blk) else None)"

text \<open>\<^verbatim>\<open>memcpy(dst + doff, src + soff, n)\<close>.\<close>

definition memcpy :: "GByte list \<Rightarrow> int \<Rightarrow> GByte list \<Rightarrow> int \<Rightarrow> int \<Rightarrow> GByte list option" where
  "memcpy dst doff src soff n =
     (case peek_bytes src soff n of
        None \<Rightarrow> None
      | Some bytes \<Rightarrow> poke_bytes dst doff bytes)"

subsection \<open>The sequential decoder\<close>

text \<open>
  The calls the driver makes that the claims count. A restart is the whole of
  \<^verbatim>\<open>Restart()\<close>; \<open>EvReadRows r\<close> is one \<^verbatim>\<open>png_read_rows\<close> call that produced row \<open>r\<close>;
  \<open>EvReadImage n\<close> is one \<^verbatim>\<open>png_read_image\<close> call that produced \<open>n\<close> rows.
\<close>

datatype event =
    EvRestart
  | EvReadRows nat
  | EvReadImage nat
  | EvMalloc int
  | EvMallocFailed int

record png_struct =
  row_number :: nat
  packing :: bool

text \<open>
  Modelled from the spec: libpng's \<^verbatim>\<open>png_read_rows\<close> (``decode_next_row''), which is
  not part of the repository. It produces exactly one row, the next one of the stream,
  into the destination; asking for a row after the last one is a fatal decode error.
  The stream is given by the rows it decodes to.
\<close>

definition png_read_rows ::
  "GByte list list \<Rightarrow> png_struct \<Rightarrow> GByte list \<Rightarrow> (GByte list \<times> png_struct) option" where
  "png_read_rows stream h row =
     (if row_number h < length stream
      then (case poke_bytes row 0 (stream ! row_number h) of
              None \<Rightarrow> None
            | Some row' \<Rightarrow> Some (row', h\<lparr>row_number := row_number h + 1\<rparr>))
      else None)"

fun write_rows :: "GByte list \<Rightarrow> (int \<times> GByte list) list \<Rightarrow> GByte list option" where
  "write_rows blk [] = Some blk"
| "write_rows blk ((off, r) # rest) =
     (case poke_bytes blk off r of
        None \<Rightarrow> None
      | Some blk' \<Rightarrow> write_rows blk' rest)"

text \<open>
  Modelled from the spec: libpng's \<^verbatim>\<open>png_read_image\<close> (``decode_whole_image''), which
  is not part of the repository. It must be invoked on an unread stream and leaves every
  row of the image at its row pointer, here an offset into the destination block.
\<close>

definition png_read_image ::
  "GByte list list \<Rightarrow> png_struct \<Rightarrow> GByte list \<Rightarrow> int list \<Rightarrow> (GByte list \<times> png_struct) option" where
  "png_read_image stream h blk png_rows =
     (if row_number h = 0 \<and> length png_rows = length stream
      then (case write_rows blk (zip png_rows stream) of
              None \<Rightarrow> None
            | Some blk' \<Rightarrow> Some (blk', h\<lparr>row_number := length stream\<rparr>))
      else None)"

subsection \<open>The dataset\<close>

datatype CPLErr = CE_None | CE_Failure

text \<open>
  The fields of \<^verbatim>\<open>PNGDataset\<close> the cache uses. \<open>fpImage\<close> is the file, given by the
  rows it decodes to. \<open>vsimalloc_ok\<close> is the environment, not a field of the code:
  whether \<^verbatim>\<open>VSIMalloc\<close> hands out the block it is asked for (\<^verbatim>\<open>CPLMalloc\<close> never returns
  \<^verbatim>\<open>NULL\<close>). \<open>calls\<close> is a
  record of the decoder and allocator calls made so far, oldest first; the code has no
  such field and never reads it.
\<close>

record PNGDataset =
  nRasterXSize :: int
  nRasterYSize :: int
  nBands :: int
  nBitDepth :: int
  bInterlaced :: bool
  fpImage :: "GByte list list"
  hPNG :: png_struct
  nBufferStartLine :: int
  nBufferLines :: int
  nLastLineRead :: int
  pabyBuffer :: "GByte list option"
  vsimalloc_ok :: bool
  calls :: "event list"

text \<open>What the header of a PNG file says, and the rows its pixel data decodes to.\<close>

record png_file =
  image_width :: int
  image_height :: int
  channels :: int
  bit_depth :: int
  interlaced :: bool
  pixel_rows :: "GByte list list"

text \<open>
  The constructor followed by \<^verbatim>\<open>Open\<close>, for a file that passed the signature check:
  the read structure is created, the header is read, and the cache starts empty.
  \<open>mem\<close> is the environment the dataset is opened in: whether \<^verbatim>\<open>VSIMalloc\<close> will
  succeed. \<^verbatim>\<open>Open\<close> itself does not allocate and does not depend on it.
\<close>

definition Open :: "png_file \<Rightarrow> bool \<Rightarrow> PNGDataset" where
  "Open f mem =
     \<lparr> nRasterXSize = image_width f,
       nRasterYSize = image_height f,
       nBands = channels f,
       nBitDepth = bit_depth f,
       bInterlaced = interlaced f,
       fpImage = pixel_rows f,
       hPNG = \<lparr> row_number = 0, packing = (bit_depth f < 8) \<rparr>,
       nBufferStartLine = 0,
       nBufferLines = 0,
       nLastLineRead = - 1,
       pabyBuffer = None,
       vsimalloc_ok = mem,
       calls = [] \<rparr>"

text \<open>
  \<^verbatim>\<open>FlushCache\<close>; the call of the base class flushes the block cache of the bands,
  which the scanline cache does not see.
\<close>

definition FlushCache :: "PNGDataset \<Rightarrow> PNGDataset" where
  "FlushCache s =
     (if pabyBuffer s \<noteq> None
      then s\<lparr>pabyBuffer := None, nBufferStartLine := 0, nBufferLines := 0\<rparr>
      else s)"

definition Restart :: "PNGDataset \<Rightarrow> PNGDataset" where
  "Restart s =
     s\<lparr>hPNG := \<lparr> row_number = 0, packing = (nBitDepth s < 8) \<rparr>,
       nLastLineRead := - 1,
       calls := calls s @ [EvRestart]\<rparr>"

text \<open>The loop \<^verbatim>\<open>while( nLine > nLastLineRead )\<close> of \<^verbatim>\<open>LoadScanline\<close>.\<close>

function read_till :: "int \<Rightarrow> PNGDataset \<Rightarrow> PNGDataset option" where
  "read_till nLine s =
     (if nLine > nLastLineRead s
      then (case pabyBuffer s of
              None \<Rightarrow> None
            | Some row \<Rightarrow>
                (case png_read_rows (fpImage s) (hPNG s) row of
                   None \<Rightarrow> None
                 | Some (row', h') \<Rightarrow>
                     read_till nLine
                       (s\<lparr>pabyBuffer := Some row',
                          hPNG := h',
                          calls := calls s @ [EvReadRows (row_number (hPNG s))],
                          nLastLineRead := nLastLineRead s + 1\<rparr>)))
      else Some s)"
  by pat_completeness auto
termination
  by (relation "measure (\<lambda>(nLine, s). nat (nLine - nLastLineRead s))") auto

declare read_till.simps [simp del]

definition in_buffer :: "int \<Rightarrow> PNGDataset \<Rightarrow> bool" where
  "in_buffer nLine s \<longleftrightarrow>
     nLine \<ge> nBufferStartLine s \<and> nLine < nBufferStartLine s + nBufferLines s"

text \<open>
  \<^verbatim>\<open>LoadScanline\<close>. The allocation sizes and the row pointers are \<^verbatim>\<open>int\<close> products; the
  wrap-around is applied to the whole product, which gives the value the code reaches
  by wrapping after every multiplication (lemmas \<open>c_int_mult_left\<close>,
  \<open>c_int_mult_right\<close>).
\<close>

definition LoadScanline :: "int \<Rightarrow> PNGDataset \<Rightarrow> (CPLErr \<times> PNGDataset) option" where
  "LoadScanline nLine s =
     (if nLine \<ge> nBufferStartLine s \<and> nLine < nBufferStartLine s + nBufferLines s
      then Some (CE_None, s)
      else
        let nPixelOffset = (if nBitDepth s = 16 then 2 * nBands s else 1 * nBands s) in
        if bInterlaced s then
          let s1 = (if nLastLineRead s \<noteq> - 1 then Restart s else s);
              s2 = s1\<lparr>nBufferStartLine := 0, nBufferLines := nRasterYSize s1\<rparr>;
              nBytes = c_int (nPixelOffset * nRasterXSize s2 * nRasterYSize s2)
          in
          if \<not> vsimalloc_ok s2
          then Some (CE_Failure,
                     s2\<lparr>pabyBuffer := None, calls := calls s2 @ [EvMallocFailed nBytes]\<rparr>)
          else
            (case png_read_image (fpImage s2) (hPNG s2) (replicate (size_t nBytes) 0)
                    (map (\<lambda>i. c_int (i * nPixelOffset * nRasterXSize s2))
                         [0 .. nRasterYSize s2 - 1]) of
               None \<Rightarrow> None
             | Some (blk, h') \<Rightarrow>
                 Some (CE_None,
                       s2\<lparr>pabyBuffer := Some blk,
                          hPNG := h',
                          calls := calls s2 @ [EvMalloc nBytes, EvReadImage (length (fpImage s2))],
                          nLastLineRead := nRasterYSize s2 - 1\<rparr>))
        else
          let nRowBytes = c_int (nPixelOffset * nRasterXSize s);
              s1 = (if pabyBuffer s = None
                    then s\<lparr>pabyBuffer := Some (replicate (size_t nRowBytes) 0),
                           calls := calls s @ [EvMalloc nRowBytes]\<rparr>
                    else s);
              s2 = (if nLine \<le> nLastLineRead s1 then Restart s1 else s1)
          in
          (case read_till nLine s2 of
             None \<Rightarrow> None
           | Some s3 \<Rightarrow> Some (CE_None, s3\<lparr>nBufferStartLine := nLine, nBufferLines := 1\<rparr>)))"

subsection \<open>Per-band block transfer\<close>

text \<open>
  The three transfer paths of \<^verbatim>\<open>IReadBlock\<close>. \<open>scan\<close> is the offset of
  \<^verbatim>\<open>pabyScanline\<close> in the cache buffer. The bulk path is the single \<^verbatim>\<open>memcpy\<close>; the
  two loops are the per-pixel copies for one-byte and for two-byte samples, with the
  indices the source uses.
\<close>

definition read_bulk :: "GByte list \<Rightarrow> int \<Rightarrow> int \<Rightarrow> int \<Rightarrow> GByte list \<Rightarrow> GByte list option" where
  "read_bulk buf scan nPixelSize nXSize pImage = memcpy pImage 0 buf scan (nPixelSize * nXSize)"

function read_strided1 ::
  "GByte list \<Rightarrow> int \<Rightarrow> int \<Rightarrow> int \<Rightarrow> int \<Rightarrow> GByte list \<Rightarrow> GByte list option" where
  "read_strided1 buf scan nPixelOffset nXSize i pImage =
     (if i < nXSize
      then (case peek buf (scan + i * nPixelOffset) of
              None \<Rightarrow> None
            | Some b \<Rightarrow>
                (case poke pImage i b of
                   None \<Rightarrow> None
                 | Some pImage' \<Rightarrow> read_strided1 buf scan nPixelOffset nXSize (i + 1) pImage'))
      else Some pImage)"
  by pat_completeness auto
termination
  by (relation "measure (\<lambda>(buf, scan, nPixelOffset, nXSize, i, pImage). nat (nXSize - i))") auto

function read_strided2 ::
  "GByte list \<Rightarrow> int \<Rightarrow> int \<Rightarrow> int \<Rightarrow> int \<Rightarrow> GByte list \<Rightarrow> GByte list option" where
  "read_strided2 buf scan nPixelOffset nXSize i pImage =
     (if i < nXSize
      then (case peek buf (scan + i * nPixelOffset) of
              None \<Rightarrow> None
            | Some b0 \<Rightarrow>
                (case poke pImage i b0 of
                   None \<Rightarrow> None
                 | Some pImage' \<Rightarrow>
                     (case peek buf (scan + (i * nPixelOffset + 1)) of
                        None \<Rightarrow> None
                      | Some b1 \<Rightarrow>
                          (case poke pImage' (i + 1) b1 of
                             None \<Rightarrow> None
                           | Some pImage'' \<Rightarrow>
                               read_strided2 buf scan nPixelOffset nXSize (i + 1) pImage''))))
      else Some pImage)"
  by pat_completeness auto
termination
  by (relation "measure (\<lambda>(buf, scan, nPixelOffset, nXSize, i, pImage). nat (nXSize - i))") auto

text \<open>
  \<^verbatim>\<open>PNGRasterBand::IReadBlock\<close> of band \<open>nBand\<close> for row \<open>nBlockYOff\<close>; \<open>pImage\<close> is
  the caller's block as it is before the call, and the result carries it as it is after.
\<close>

definition IReadBlock ::
  "int \<Rightarrow> int \<Rightarrow> GByte list \<Rightarrow> PNGDataset \<Rightarrow> (CPLErr \<times> GByte list \<times> PNGDataset) option" where
  "IReadBlock nBand nBlockYOff pImage s =
     (let nXSize = nRasterXSize s;
          nPixelSize = (if nBitDepth s = 16 then 2 else 1);
          nPixelOffset = nBands s * nPixelSize
      in
      case LoadScanline nBlockYOff s of
        None \<Rightarrow> None
      | Some (eErr, s') \<Rightarrow>
          if eErr \<noteq> CE_None then Some (eErr, pImage, s')
          else
            (case pabyBuffer s' of
               None \<Rightarrow> None
             | Some buf \<Rightarrow>
                 let scan = (nBlockYOff - nBufferStartLine s') * nPixelOffset * nXSize
                            + nPixelSize * (nBand - 1)
                 in
                 (case (if nPixelSize = nPixelOffset
                        then read_bulk buf scan nPixelSize nXSize pImage
                        else if nPixelSize = 1
                        then read_strided1 buf scan nPixelOffset nXSize 0 pImage
                        else read_strided2 buf scan nPixelOffset nXSize 0 pImage) of
                    None \<Rightarrow> None
                  | Some pImage' \<Rightarrow> Some (CE_None, pImage', s'))))"

text \<open>The three transfer paths of \<^verbatim>\<open>IWriteBlock\<close>, the mirror images of the read paths.\<close>

definition write_bulk :: "GByte list \<Rightarrow> int \<Rightarrow> int \<Rightarrow> int \<Rightarrow> GByte list \<Rightarrow> GByte list option" where
  "write_bulk buf scan nPixelSize nXSize pImage = memcpy buf scan pImage 0 (nPixelSize * nXSize)"

function write_strided1 ::
  "GByte list \<Rightarrow> int \<Rightarrow> int \<Rightarrow> int \<Rightarrow> int \<Rightarrow> GByte list \<Rightarrow> GByte list option" where
  "write_strided1 buf scan nPixelOffset nXSize i pImage =
     (if i < nXSize
      then (case peek pImage i of
              None \<Rightarrow> None
            | Some b \<Rightarrow>
                (case poke buf (scan + i * nPixelOffset) b of
                   None \<Rightarrow> None
                 | Some buf' \<Rightarrow> write_strided1 buf' scan nPixelOffset nXSize (i + 1) pImage))
      else Some buf)"
  by pat_completeness auto
termination
  by (relation "measure (\<lambda>(buf, scan, nPixelOffset, nXSize, i, pImage). nat (nXSize - i))") auto

function write_strided2 ::
  "GByte list \<Rightarrow> int \<Rightarrow> int \<Rightarrow> int \<Rightarrow> int \<Rightarrow> GByte list \<Rightarrow> GByte list option" where
  "write_strided2 buf scan nPixelOffset nXSize i pImage =
     (if i < nXSize
      then (case peek pImage i of
              None \<Rightarrow> None
            | Some b0 \<Rightarrow>
                (case poke buf (scan + i * nPixelOffset) b0 of
                   None \<Rightarrow> None
                 | Some buf' \<Rightarrow>
                     (case peek pImage (i + 1) of
                        None \<Rightarrow> None
                      | Some b1 \<Rightarrow>
                          (case poke buf' (scan + (i * nPixelOffset + 1)) b1 of
                             None \<Rightarrow> None
                           | Some buf'' \<Rightarrow>
                               write_strided2 buf'' scan nPixelOffset nXSize (i + 1) pImage))))
      else Some buf)"
  by pat_completeness auto
termination
  by (relation "measure (\<lambda>(buf, scan, nPixelOffset, nXSize, i, pImage). nat (nXSize - i))") auto

declare read_strided1.simps [simp del] read_strided2.simps [simp del]
  write_strided1.simps [simp del] write_strided2.simps [simp del]

text \<open>\<^verbatim>\<open>PNGRasterBand::IWriteBlock\<close> of band \<open>nBand\<close> for row \<open>nBlockYOff\<close>.\<close>

definition IWriteBlock ::
  "int \<Rightarrow> int \<Rightarrow> GByte list \<Rightarrow> PNGDataset \<Rightarrow> (CPLErr \<times> PNGDataset) option" where
  "IWriteBlock nBand nBlockYOff pImage s =
     (let nXSize = nRasterXSize s in
      case LoadScanline nBlockYOff s of
        None \<Rightarrow> None
      | Some (eErr, s') \<Rightarrow>
          if eErr \<noteq> CE_None then Some (eErr, s')
          else
            let nPixelSize = (if nBitDepth s' = 16 then 2 else 1);
                nPixelOffset = nBands s' * nPixelSize
            in
            (case pabyBuffer s' of
               None \<Rightarrow> None
             | Some buf \<Rightarrow>
                 let scan = (nBlockYOff - nBufferStartLine s') * nPixelOffset * nXSize
                            + nPixelSize * (nBand - 1)
                 in
                 (case (if nPixelSize = nPixelOffset
                        then write_bulk buf scan nPixelSize nXSize pImage
                        else if nPixelSize = 1
                        then write_strided1 buf scan nPixelOffset nXSize 0 pImage
                        else write_strided2 buf scan nPixelOffset nXSize 0 pImage) of
                    None \<Rightarrow> None
                  | Some buf' \<Rightarrow> Some (CE_None, s'\<lparr>pabyBuffer := Some buf'\<rparr>))))"

subsection \<open>Sequences of requests\<close>

text \<open>
  What a caller can do with an open dataset: ask for a row, drop the cache, read or
  write one band of a row. \<^verbatim>\<open>Restart\<close> is private and is reached through
  \<^verbatim>\<open>LoadScanline\<close> only.
\<close>

datatype request =
    Load int
  | Flush
  | ReadBlock int int "GByte list"
  | WriteBlock int int "GByte list"

fun perform :: "request \<Rightarrow> PNGDataset \<Rightarrow> PNGDataset option" where
  "perform (Load nLine) s = map_option snd (LoadScanline nLine s)"
| "perform Flush s = Some (FlushCache s)"
| "perform (ReadBlock nBand nLine pImage) s =
     map_option (\<lambda>(eErr, pImage', s'). s') (IReadBlock nBand nLine pImage s)"
| "perform (WriteBlock nBand nLine pImage) s = map_option snd (IWriteBlock nBand nLine pImage s)"

fun run :: "request list \<Rightarrow> PNGDataset \<Rightarrow> PNGDataset option" where
  "run [] s = Some s"
| "run (r # rs) s = (case perform r s of None \<Rightarrow> None | Some s' \<Rightarrow> run rs s')"

text \<open>
  The contract of a request: the row is a row of the image
  (\<^verbatim>\<open>CPLAssert( nLine >= 0 && nLine < GetRasterYSize() )\<close>), the band is a band of the
  dataset, and the caller's block holds one row of samples of that band.
\<close>

fun valid_request :: "PNGDataset \<Rightarrow> request \<Rightarrow> bool" where
  "valid_request s (Load nLine) \<longleftrightarrow> 0 \<le> nLine \<and> nLine < nRasterYSize s"
| "valid_request s Flush \<longleftrightarrow> True"
| "valid_request s (ReadBlock nBand nLine pImage) \<longleftrightarrow>
     0 \<le> nLine \<and> nLine < nRasterYSize s \<and> 1 \<le> nBand \<and> nBand \<le> nBands s \<and>
     int (length pImage) = (if nBitDepth s = 16 then 2 else 1) * nRasterXSize s"
| "valid_request s (WriteBlock nBand nLine pImage) \<longleftrightarrow>
     0 \<le> nLine \<and> nLine < nRasterYSize s \<and> 1 \<le> nBand \<and> nBand \<le> nBands s \<and>
     int (length pImage) = (if nBitDepth s = 16 then 2 else 1) * nRasterXSize s"

subsection \<open>Well-formed states and what the claims count\<close>

text \<open>The size in bytes of one decoded row.\<close>

definition rowbytes :: "PNGDataset \<Rightarrow> int" where
  "rowbytes s = (if nBitDepth s = 16 then 2 * nBands s else 1 * nBands s) * nRasterXSize s"

text \<open>
  The size in bytes that has to fit in an \<^verbatim>\<open>int\<close> for the sizes and row pointers of
  \<^verbatim>\<open>LoadScanline\<close> not to wrap: one row of a progressive image, the whole of an interlaced
  one.
\<close>

definition buffered_bytes :: "bool \<Rightarrow> int \<Rightarrow> int \<Rightarrow> int" where
  "buffered_bytes lace row_size height = (if lace then row_size * height else row_size)"

text \<open>
  A file is well formed when its header describes its pixel data: 1 to 4 channels, as
  many rows as the height says, each of the size the header implies; and when what the
  driver buffers of it is less than \<open>2 ^ 31\<close> bytes.
\<close>

definition wf_file :: "png_file \<Rightarrow> bool" where
  "wf_file f \<longleftrightarrow>
     1 \<le> channels f \<and> channels f \<le> 4 \<and> 0 \<le> image_width f \<and>
     image_height f = int (length (pixel_rows f)) \<and>
     list_all (\<lambda>r. int (length r) =
                 (if bit_depth f = 16 then 2 * channels f else 1 * channels f) * image_width f)
              (pixel_rows f) \<and>
     buffered_bytes (interlaced f)
       ((if bit_depth f = 16 then 2 * channels f else 1 * channels f) * image_width f)
       (image_height f) < 2 ^ 31"

text \<open>
  A state of a dataset is well formed when the image parameters describe the stream, what
  the driver buffers is less than \<open>2 ^ 31\<close> bytes, the decoder stands just after the row
  the cursor names, and a single-row buffer, where there is one, has the size of a row.
\<close>

definition wf :: "PNGDataset \<Rightarrow> bool" where
  "wf s \<longleftrightarrow>
     1 \<le> nBands s \<and> 0 \<le> nRasterXSize s \<and>
     nRasterYSize s = int (length (fpImage s)) \<and>
     list_all (\<lambda>r. int (length r) = rowbytes s) (fpImage s) \<and>
     buffered_bytes (bInterlaced s) (rowbytes s) (nRasterYSize s) < 2 ^ 31 \<and>
     int (row_number (hPNG s)) = nLastLineRead s + 1 \<and>
     nLastLineRead s < nRasterYSize s \<and>
     (case pabyBuffer s of
        None \<Rightarrow> True
      | Some buf \<Rightarrow> bInterlaced s \<or> int (length buf) = rowbytes s)"

text \<open>The single-row cache of progressive mode: empty, or holding the row at the cursor.\<close>

definition single_row_cache :: "PNGDataset \<Rightarrow> bool" where
  "single_row_cache s \<longleftrightarrow>
     nBufferLines s = 0 \<or>
     (nBufferLines s = 1 \<and> nBufferStartLine s = nLastLineRead s \<and> pabyBuffer s \<noteq> None)"

definition restarts :: "event list \<Rightarrow> nat" where
  "restarts es = length (filter (\<lambda>e. e = EvRestart) es)"

fun decoded_rows :: "event list \<Rightarrow> nat list" where
  "decoded_rows [] = []"
| "decoded_rows (EvReadRows r # es) = r # decoded_rows es"
| "decoded_rows (e # es) = decoded_rows es"

fun image_decodes :: "event list \<Rightarrow> nat" where
  "image_decodes [] = 0"
| "image_decodes (EvReadImage n # es) = Suc (image_decodes es)"
| "image_decodes (e # es) = image_decodes es"

text \<open>The calls a request made: those of the state after it that the state before it lacks.\<close>

definition new_calls :: "PNGDataset \<Rightarrow> PNGDataset \<Rightarrow> event list" where
  "new_calls s s' = drop (length (calls s)) (calls s')"

text \<open>
  The calls a progressive \<^verbatim>\<open>LoadScanline\<close> makes for a row that is not buffered: the
  allocation of the row buffer when there is none, a restart when the row is at or
  behind the cursor, and one \<^verbatim>\<open>png_read_rows\<close> for every row after the cursor up to and
  including the requested one.
\<close>

definition progressive_calls :: "int \<Rightarrow> PNGDataset \<Rightarrow> event list" where
  "progressive_calls n s =
     (if pabyBuffer s = None then [EvMalloc (rowbytes s)] else []) @
     (if n \<le> nLastLineRead s
      then EvRestart # map EvReadRows [0 ..< nat (n + 1)]
      else map EvReadRows [nat (nLastLineRead s + 1) ..< nat (n + 1)])"

text \<open>
  A record of calls is forward-only from row \<open>c\<close> when every \<^verbatim>\<open>png_read_rows\<close> in it
  produces the row that follows the last one produced since the latest restart, and
  every \<^verbatim>\<open>png_read_image\<close> starts on an unread stream. \<open>cursor_after c es\<close> is the next
  row of the decoder after such a record, and \<open>None\<close> for any other record.
\<close>

fun cursor_after :: "nat \<Rightarrow> event list \<Rightarrow> nat option" where
  "cursor_after c [] = Some c"
| "cursor_after c (EvRestart # es) = cursor_after 0 es"
| "cursor_after c (EvReadRows r # es) = (if r = c then cursor_after (Suc c) es else None)"
| "cursor_after c (EvReadImage n # es) = (if c = 0 then cursor_after n es else None)"
| "cursor_after c (EvMalloc n # es) = cursor_after c es"
| "cursor_after c (EvMallocFailed n # es) = cursor_after c es"

text \<open>
  The calls an interlaced \<^verbatim>\<open>LoadScanline\<close> makes for a row that is not buffered: a
  restart when the cursor is not at its sentinel, then the allocation of the whole-image
  block and, when that succeeds, one \<^verbatim>\<open>png_read_image\<close>.
\<close>

definition interlaced_calls :: "PNGDataset \<Rightarrow> event list" where
  "interlaced_calls s =
     (if nLastLineRead s \<noteq> - 1 then [EvRestart] else []) @
     (if vsimalloc_ok s
      then [EvMalloc (rowbytes s * nRasterYSize s), EvReadImage (length (fpImage s))]
      else [EvMallocFailed (rowbytes s * nRasterYSize s)])"

text \<open>Two states of the same image in the same environment.\<close>

definition same_image :: "PNGDataset \<Rightarrow> PNGDataset \<Rightarrow> bool" where
  "same_image s s' \<longleftrightarrow>
     nRasterXSize s' = nRasterXSize s \<and> nRasterYSize s' = nRasterYSize s \<and>
     nBands s' = nBands s \<and> nBitDepth s' = nBitDepth s \<and>
     bInterlaced s' = bInterlaced s \<and> fpImage s' = fpImage s \<and>
     vsimalloc_ok s' = vsimalloc_ok s"

text \<open>
  The record of calls of a state is forward-only when, read from the opening of the
  dataset, it leaves the decoder where the read structure says it is.
\<close>

definition forward_only :: "PNGDataset \<Rightarrow> bool" where
  "forward_only s \<longleftrightarrow> cursor_after 0 (calls s) = Some (row_number (hPNG s))"

text \<open>What holds of a progressive dataset between any two requests.\<close>

definition progressive_inv :: "PNGDataset \<Rightarrow> bool" where
  "progressive_inv s \<longleftrightarrow>
     wf s \<and> \<not> bInterlaced s \<and> single_row_cache s \<and> forward_only s"

subsection \<open>Example datasets\<close>

text \<open>
  A progressive image of 4 rows, 2 bands and one byte per sample, and an interlaced image
  of 2 rows; the latter also opened in an environment where the whole-image allocation
  fails, and the state its first row request leaves behind there.
\<close>


definition prog4 :: png_file where
  "prog4 = \<lparr> image_width = 2, image_height = 4, channels = 2, bit_depth = 8,
             interlaced = False,
             pixel_rows = [[1, 2, 3, 4], [5, 6, 7, 8], [9, 10, 11, 12], [13, 14, 15, 16]] \<rparr>"

definition lace2 :: png_file where
  "lace2 = \<lparr> image_width = 2, image_height = 2, channels = 2, bit_depth = 8,
             interlaced = True,
             pixel_rows = [[1, 2, 3, 4], [5, 6, 7, 8]] \<rparr>"

definition lace2_nomem :: PNGDataset where
  "lace2_nomem = Open lace2 False"

definition lace2_failed :: PNGDataset where
  "lace2_failed = lace2_nomem\<lparr>nBufferLines := 2, calls := [EvMallocFailed 8]\<rparr>"


text \<open>
  The state of the 4-row progressive example after its row 0 was requested, and a
  progressive image of one row of two pixels, 2 bands and two bytes per sample.
\<close>

definition prog4_at0 :: PNGDataset where
  "prog4_at0 = (Open prog4 True)\<lparr>pabyBuffer := Some [1, 2, 3, 4],
                             hPNG := \<lparr>row_number = 1, packing = False\<rparr>,
                             calls := [EvMalloc 4, EvReadRows 0],
                             nLastLineRead := 0,
                             nBufferStartLine := 0,
                             nBufferLines := 1\<rparr>"

definition deep2 :: png_file where
  "deep2 = \<lparr> image_width = 2, image_height = 1, channels = 2, bit_depth = 16,
             interlaced = False,
             pixel_rows = [[0, 0, 0, 0, 0, 0, 0, 0]] \<rparr>"


text \<open>
  The rows strictly between a previous highest row \<open>p\<close> and a requested row \<open>t\<close>, the
  way claim C3 words the number of decode calls.
\<close>

definition strictly_between :: "int \<Rightarrow> int \<Rightarrow> int list" where
  "strictly_between p t = [p + 1 .. t - 1]"

text \<open>
  A row buffer of one-byte samples with \<open>nB\<close> bands holds the samples \<open>d\<close> in band
  \<open>b\<close>: the sample of pixel \<open>j\<close> lies at byte \<open>(b - 1) + j nB\<close>.
\<close>

definition band_holds :: "GByte list \<Rightarrow> int \<Rightarrow> int \<Rightarrow> int \<Rightarrow> GByte list \<Rightarrow> bool" where
  "band_holds buf nB X b d \<longleftrightarrow>
     list_all (\<lambda>j. buf ! nat ((b - 1) + j * nB) = d ! nat j) [0 .. X - 1]"

section \<open>Properties\<close>

subsection \<open>Machine integers\<close>

lemma c_int_id: "- (2 ^ 31) \<le> n \<Longrightarrow> n < 2 ^ 31 \<Longrightarrow> c_int n = n"
  unfolding c_int_def by (simp add: signed_take_bit_int_eq_self sint_sbintrunc')

lemma size_t_id: "0 \<le> n \<Longrightarrow> n < 2 ^ 31 \<Longrightarrow> size_t n = nat n"
  unfolding size_t_def by (simp add: unat_eq_nat_uint take_bit_int_eq_self uint_word_of_int_eq)

text \<open>
  Without the bound of a well-formed state the sizes do wrap: for an image of 32768 by
  32769 pixels of 4 bytes, \<open>2 ^ 32 + 2 ^ 17\<close> bytes in all, the whole-image size of
  \<^verbatim>\<open>LoadScanline\<close> is 131072.
\<close>

lemma whole_image_size_wraps: "c_int (4 * 32768 * 32769) = 131072"
  by (simp add: c_int_def)

lemma c_int_mult_left: "c_int (c_int a * b) = c_int (a * b)"
  unfolding c_int_def by (simp add: wi_hom_mult[symmetric])

lemma c_int_mult_right: "c_int (a * c_int b) = c_int (a * b)"
  unfolding c_int_def by (simp add: wi_hom_mult[symmetric])

subsection \<open>Memory blocks\<close>

lemma poke_bytes_whole: "length src = length blk \<Longrightarrow> poke_bytes blk 0 src = Some src"
  by (simp add: poke_bytes_def)

lemma poke_bytes_length: "poke_bytes blk off src = Some blk' \<Longrightarrow> length blk' = length blk"
  by (auto simp: poke_bytes_def split: if_splits)

lemma poke_length: "poke blk i b = Some blk' \<Longrightarrow> length blk' = length blk"
  by (auto simp: poke_def split: if_splits)

subsection \<open>The row loop\<close>

text \<open>
  From a state whose decoder stands just after the cursor, the loop reaches any row at or
  after the cursor that the image has: it makes one \<^verbatim>\<open>png_read_rows\<close> call per row, in
  order, and leaves the requested row in the buffer.
\<close>

lemma read_till_reaches:
  assumes "list_all (\<lambda>r. length r = length buf) (fpImage s)"
    and "int (row_number (hPNG s)) = nLastLineRead s + 1"
    and "pabyBuffer s = Some buf"
    and "nLastLineRead s \<le> n" and "n < int (length (fpImage s))"
  shows "read_till n s =
     Some (s\<lparr>pabyBuffer := Some (if nLastLineRead s < n then fpImage s ! nat n else buf),
            hPNG := (hPNG s)\<lparr>row_number := nat (n + 1)\<rparr>,
            calls := calls s @ map EvReadRows [nat (nLastLineRead s + 1) ..< nat (n + 1)],
            nLastLineRead := n\<rparr>)"
  using assms
proof (induction n s arbitrary: buf rule: read_till.induct)
  case (1 nLine s)
  show ?case
  proof (cases "nLine > nLastLineRead s")
    case False
    with "1.prems" have eq: "nLastLineRead s = nLine" by simp
    have "row_number (hPNG s) = nat (nLine + 1)" using "1.prems"(2) eq by simp
    then show ?thesis using False eq "1.prems"(3) by (subst read_till.simps) simp
  next
    case True
    let ?k = "row_number (hPNG s)"
    have k: "?k = nat (nLastLineRead s + 1)" using "1.prems"(2) by simp
    have klt: "?k < length (fpImage s)" using True "1.prems" by linarith
    have len: "length (fpImage s ! ?k) = length buf"
      using "1.prems"(1) klt by (simp add: list_all_length)
    have rd: "png_read_rows (fpImage s) (hPNG s) buf
                = Some (fpImage s ! ?k, (hPNG s)\<lparr>row_number := ?k + 1\<rparr>)"
      using klt len by (simp add: png_read_rows_def poke_bytes_whole)
    let ?s' = "s\<lparr>pabyBuffer := Some (fpImage s ! ?k),
                 hPNG := (hPNG s)\<lparr>row_number := ?k + 1\<rparr>,
                 calls := calls s @ [EvReadRows ?k],
                 nLastLineRead := nLastLineRead s + 1\<rparr>"
    have step: "read_till nLine s = read_till nLine ?s'"
      using True rd "1.prems"(3) by (subst read_till.simps) simp
    have ih: "read_till nLine ?s' =
       Some (?s'\<lparr>pabyBuffer := Some (if nLastLineRead ?s' < nLine then fpImage ?s' ! nat nLine
                                       else fpImage s ! ?k),
            hPNG := (hPNG ?s')\<lparr>row_number := nat (nLine + 1)\<rparr>,
            calls := calls ?s' @ map EvReadRows [nat (nLastLineRead ?s' + 1) ..< nat (nLine + 1)],
            nLastLineRead := nLine\<rparr>)"
      apply (rule "1.IH"[OF True "1.prems"(3) rd refl])
      using "1.prems" True len k by (simp_all add: nat_add_distrib)
    have upt: "[nat (nLastLineRead s + 1) ..< nat (nLine + 1)]
                = ?k # [nat (nLastLineRead s + 1 + 1) ..< nat (nLine + 1)]"
    proof -
      have nn: "0 \<le> nLastLineRead s + 1" using "1.prems"(2) by linarith
      have lt: "nat (nLastLineRead s + 1) < nat (nLine + 1)" using True nn by linarith
      have sc: "Suc (nat (nLastLineRead s + 1)) = nat (nLastLineRead s + 1 + 1)"
        using nn by linarith
      show ?thesis using upt_conv_Cons[OF lt] sc k by simp
    qed
    have last: "\<not> nLastLineRead s + 1 < nLine \<Longrightarrow> ?k = nat nLine"
      using True k by linarith
    show ?thesis
      unfolding step ih using True upt last by (auto simp: k)
  qed
qed

subsection \<open>What one request does\<close>

lemma LoadScanline_buffered: "in_buffer n s \<Longrightarrow> LoadScanline n s = Some (CE_None, s)"
  by (simp add: LoadScanline_def in_buffer_def)

lemma LoadScanline_progressive:
  assumes wf: "wf s" and prog: "\<not> bInterlaced s"
    and n0: "0 \<le> n" and nY: "n < nRasterYSize s" and nb: "\<not> in_buffer n s"
  shows "LoadScanline n s =
     Some (CE_None,
           s\<lparr>pabyBuffer := Some (fpImage s ! nat n),
             hPNG := \<lparr>row_number = nat (n + 1),
                      packing = (if n \<le> nLastLineRead s then nBitDepth s < 8
                                 else packing (hPNG s))\<rparr>,
             calls := calls s @ progressive_calls n s,
             nLastLineRead := n,
             nBufferStartLine := n,
             nBufferLines := 1\<rparr>)"
proof -
  let ?rb = "rowbytes s"
  have Y: "nRasterYSize s = int (length (fpImage s))" using wf by (simp add: wf_def)
  have rows: "list_all (\<lambda>r. int (length r) = ?rb) (fpImage s)" using wf by (simp add: wf_def)
  have sync: "int (row_number (hPNG s)) = nLastLineRead s + 1" using wf by (simp add: wf_def)
  have nlen: "nat n < length (fpImage s)" using n0 nY Y by linarith
  have rb: "int (length (fpImage s ! nat n)) = ?rb"
    using rows nlen by (simp add: list_all_length)
  then have rb0: "0 \<le> ?rb" by linarith
  define buf where "buf = (case pabyBuffer s of None \<Rightarrow> replicate (nat ?rb) 0 | Some b \<Rightarrow> b)"
  have buflen: "int (length buf) = ?rb"
    using wf prog rb0 by (auto simp: buf_def wf_def split: option.splits)
  have rows': "list_all (\<lambda>r. length r = length buf) (fpImage s)"
    using rows buflen by (auto simp: list_all_length)
  define s1 where "s1 = (if pabyBuffer s = None
                    then s\<lparr>pabyBuffer := Some (replicate (nat ?rb) 0),
                           calls := calls s @ [EvMalloc ?rb]\<rparr>
                    else s)"
  define s2 where "s2 = (if n \<le> nLastLineRead s1 then Restart s1 else s1)"
  have s1buf: "pabyBuffer s1 = Some buf"
    by (auto simp: s1_def buf_def split: option.splits)
  have s2buf: "pabyBuffer s2 = Some buf"
    using s1buf by (simp add: s2_def Restart_def)
  have s2img: "fpImage s2 = fpImage s" by (simp add: s2_def s1_def Restart_def)
  have s2sync: "int (row_number (hPNG s2)) = nLastLineRead s2 + 1"
    using sync by (simp add: s2_def s1_def Restart_def)
  have s2le: "nLastLineRead s2 < n"
    using n0 by (simp add: s2_def s1_def Restart_def)
  have rt: "read_till n s2 =
     Some (s2\<lparr>pabyBuffer := Some (if nLastLineRead s2 < n then fpImage s2 ! nat n else buf),
            hPNG := (hPNG s2)\<lparr>row_number := nat (n + 1)\<rparr>,
            calls := calls s2 @ map EvReadRows [nat (nLastLineRead s2 + 1) ..< nat (n + 1)],
            nLastLineRead := n\<rparr>)"
    apply (rule read_till_reaches)
    using rows' s2img s2sync s2buf s2le nY Y by simp_all
  have unfold: "LoadScanline n s =
      (case read_till n s2 of
         None \<Rightarrow> None
       | Some s3 \<Rightarrow> Some (CE_None, s3\<lparr>nBufferStartLine := n, nBufferLines := 1\<rparr>))"
  proof -
    have nb': "\<not> (n \<ge> nBufferStartLine s \<and> n < nBufferStartLine s + nBufferLines s)"
      using nb by (simp add: in_buffer_def)
    have fits: "?rb < 2 ^ 31" using wf prog by (simp add: wf_def buffered_bytes_def)
    have ci: "c_int ((if nBitDepth s = 16 then 2 * nBands s else 1 * nBands s) * nRasterXSize s)
                = ?rb"
      using c_int_id[of ?rb] rb0 fits by (simp add: rowbytes_def)
    have sz: "size_t ?rb = nat ?rb" using rb0 fits by (rule size_t_id)
    show ?thesis
      unfolding LoadScanline_def if_not_P[OF nb'] Let_def ci sz
      using prog by (simp add: s2_def s1_def)
  qed
  show ?thesis
    unfolding unfold rt using s2le
    by (auto simp: s2_def s1_def Restart_def progressive_calls_def)
qed

subsection \<open>The whole-image load\<close>


lemma write_rows_concat:
  assumes "list_all (\<lambda>r. int (length r) = rb) rows" and "0 \<le> rb"
    and "int (length pre) = k * rb" and "0 \<le> k"
  shows "write_rows (pre @ replicate (nat (rb * int (length rows))) 0)
           (zip (map (\<lambda>i. i * rb) [k .. k + int (length rows) - 1]) rows)
         = Some (pre @ concat rows)"
  using assms
proof (induction rows arbitrary: pre k)
  case Nil
  then show ?case by simp
next
  case (Cons r rows)
  have lr: "int (length r) = rb" and rest: "list_all (\<lambda>r. int (length r) = rb) rows"
    using Cons.prems(1) by simp_all
  have up: "[k .. k + int (length (r # rows)) - 1] = k # [k + 1 .. (k + 1) + int (length rows) - 1]"
    by (subst upto_rec1) (simp_all add: algebra_simps)
  have sz: "nat (rb * int (length (r # rows))) = length r + nat (rb * int (length rows))"
  proof -
    have "rb * int (length (r # rows)) = rb + rb * int (length rows)" by (simp add: algebra_simps)
    moreover have "0 \<le> rb * int (length rows)" using Cons.prems(2) by simp
    ultimately show ?thesis using lr Cons.prems(2) by (simp add: nat_add_distrib)
  qed
  have off: "nat (k * rb) = length pre" using Cons.prems(3) by simp
  have k0: "0 \<le> k * rb" using Cons.prems by simp
  have pk: "poke_bytes (pre @ replicate (nat (rb * int (length (r # rows)))) 0) (k * rb) r
              = Some ((pre @ r) @ replicate (nat (rb * int (length rows))) 0)"
    unfolding sz using off k0 Cons.prems(3)
    by (simp add: poke_bytes_def replicate_add)
  have ih: "write_rows ((pre @ r) @ replicate (nat (rb * int (length rows))) 0)
           (zip (map (\<lambda>i. i * rb) [k + 1 .. (k + 1) + int (length rows) - 1]) rows)
         = Some ((pre @ r) @ concat rows)"
    using rest Cons.prems lr by (intro Cons.IH) (simp_all add: algebra_simps)
  show ?case
    unfolding up using pk ih by simp
qed

lemma whole_image_written:
  assumes "list_all (\<lambda>r. int (length r) = rb) rows" and "0 \<le> rb"
  shows "write_rows (replicate (nat (rb * int (length rows))) 0)
           (zip (map (\<lambda>i. i * rb) [0 .. int (length rows) - 1]) rows)
         = Some (concat rows)"
  using write_rows_concat[OF assms, of "[]" 0] by simp

lemma wf_rowbytes_nonneg: "wf s \<Longrightarrow> 0 \<le> rowbytes s"
  by (simp add: wf_def rowbytes_def)

lemma wf_image_fits:
  assumes "wf s" and "bInterlaced s"
  shows "0 \<le> rowbytes s * nRasterYSize s" and "rowbytes s * nRasterYSize s < 2 ^ 31"
proof -
  have "0 \<le> rowbytes s" by (rule wf_rowbytes_nonneg[OF assms(1)])
  moreover have "0 \<le> nRasterYSize s" using assms(1) by (simp add: wf_def)
  ultimately show "0 \<le> rowbytes s * nRasterYSize s" by simp
  have "buffered_bytes (bInterlaced s) (rowbytes s) (nRasterYSize s) < 2 ^ 31"
    using assms(1) unfolding wf_def by blast
  then show "rowbytes s * nRasterYSize s < 2 ^ 31"
    using assms(2) by (simp add: buffered_bytes_def)
qed

lemma LoadScanline_interlaced_nomem:
  assumes wf: "wf s" and il: "bInterlaced s" and nb: "\<not> in_buffer n s"
    and nomem: "\<not> vsimalloc_ok s"
  shows "LoadScanline n s =
     Some (CE_Failure,
           s\<lparr>hPNG := (if nLastLineRead s \<noteq> - 1
                       then \<lparr>row_number = 0, packing = (nBitDepth s < 8)\<rparr> else hPNG s),
             nLastLineRead := - 1,
             nBufferStartLine := 0,
             nBufferLines := nRasterYSize s,
             pabyBuffer := None,
             calls := calls s @ interlaced_calls s\<rparr>)"
proof -
  let ?rb = "rowbytes s"
  let ?po = "if nBitDepth s = 16 then 2 * nBands s else 1 * nBands s"
  note fits = wf_image_fits[OF wf il]
  have rb: "?rb = ?po * nRasterXSize s" by (simp add: rowbytes_def)
  have nbytes: "c_int (?rb * nRasterYSize s) = ?rb * nRasterYSize s"
    using fits by (intro c_int_id) simp_all
  have nb': "\<not> (n \<ge> nBufferStartLine s \<and> n < nBufferStartLine s + nBufferLines s)"
    using nb by (simp add: in_buffer_def)
  show ?thesis
    unfolding LoadScanline_def if_not_P[OF nb']
    using il nomem
    by (auto simp: Let_def Restart_def interlaced_calls_def rb[symmetric] nbytes)
qed

lemma LoadScanline_interlaced_ok:
  assumes wf: "wf s" and il: "bInterlaced s" and nb: "\<not> in_buffer n s" and ok: "vsimalloc_ok s"
  shows "LoadScanline n s =
     Some (CE_None,
           s\<lparr>hPNG := \<lparr>row_number = length (fpImage s),
                      packing = (if nLastLineRead s \<noteq> - 1 then nBitDepth s < 8
                                 else packing (hPNG s))\<rparr>,
             nLastLineRead := nRasterYSize s - 1,
             nBufferStartLine := 0,
             nBufferLines := nRasterYSize s,
             pabyBuffer := Some (concat (fpImage s)),
             calls := calls s @ interlaced_calls s\<rparr>)"
proof -
  let ?rb = "rowbytes s"
  let ?po = "if nBitDepth s = 16 then 2 * nBands s else 1 * nBands s"
  let ?Y = "int (length (fpImage s))"
  have Y: "nRasterYSize s = ?Y" using wf by (simp add: wf_def)
  have rows: "list_all (\<lambda>r. int (length r) = ?rb) (fpImage s)" using wf by (simp add: wf_def)
  have sync: "int (row_number (hPNG s)) = nLastLineRead s + 1" using wf by (simp add: wf_def)
  have rb: "?rb = ?po * nRasterXSize s" by (simp add: rowbytes_def)
  have rb0: "0 \<le> ?rb" by (rule wf_rowbytes_nonneg[OF wf])
  have fits: "0 \<le> ?rb * ?Y" "?rb * ?Y < 2 ^ 31" using wf_image_fits[OF wf il] Y by simp_all
  have blk:
    "write_rows (replicate (nat (?rb * ?Y)) 0)
        (zip (map (\<lambda>i. i * ?rb) [0 .. ?Y - 1]) (fpImage s))
       = Some (concat (fpImage s))"
    by (rule whole_image_written[OF rows rb0])
  have offs: "map (\<lambda>i. c_int (i * ?po * nRasterXSize s)) [0 .. ?Y - 1]
                = map (\<lambda>i. i * ?rb) [0 .. ?Y - 1]"
  proof (rule map_cong[OF refl])
    fix i assume "i \<in> set [0 .. ?Y - 1]"
    then have i: "0 \<le> i" "i + 1 \<le> ?Y" by simp_all
    have "(i + 1) * ?rb \<le> ?Y * ?rb" using i rb0 by (intro mult_right_mono) simp_all
    then have "i * ?rb \<le> ?rb * ?Y" using rb0 by (simp add: algebra_simps)
    moreover have "0 \<le> i * ?rb" using i rb0 by simp
    ultimately have "c_int (i * ?rb) = i * ?rb" using fits by (intro c_int_id) linarith+
    then show "c_int (i * ?po * nRasterXSize s) = i * ?rb" by (simp add: rb mult.assoc)
  qed
  have nbytes: "c_int (?rb * ?Y) = ?rb * ?Y"
    using fits by (intro c_int_id) simp_all
  have sz: "size_t (?rb * ?Y) = nat (?rb * ?Y)" using fits by (rule size_t_id)
  have nb': "\<not> (n \<ge> nBufferStartLine s \<and> n < nBufferStartLine s + nBufferLines s)"
    using nb by (simp add: in_buffer_def)
  have rn0: "nLastLineRead s = - 1 \<Longrightarrow> row_number (hPNG s) = 0" using sync by simp
  show ?thesis
    unfolding LoadScanline_def if_not_P[OF nb']
    using il ok blk rn0
    by (auto simp: Let_def Restart_def interlaced_calls_def png_read_image_def
                   Y rb[symmetric] nbytes sz offs)
qed

subsection \<open>Counting calls\<close>

lemma decoded_rows_append: "decoded_rows (xs @ ys) = decoded_rows xs @ decoded_rows ys"
  by (induction xs rule: decoded_rows.induct) simp_all

lemma decoded_rows_map: "decoded_rows (map EvReadRows rs) = rs"
  by (induction rs) simp_all

lemma image_decodes_append: "image_decodes (xs @ ys) = image_decodes xs + image_decodes ys"
  by (induction xs rule: image_decodes.induct) simp_all

lemma image_decodes_map: "image_decodes (map EvReadRows rs) = 0"
  by (induction rs) simp_all

lemma restarts_append: "restarts (xs @ ys) = restarts xs + restarts ys"
  by (simp add: restarts_def)

lemma restarts_map: "restarts (map EvReadRows rs) = 0"
  by (induction rs) (simp_all add: restarts_def)

lemma new_calls_append: "calls s' = calls s @ es \<Longrightarrow> new_calls s s' = es"
  by (simp add: new_calls_def)

lemma new_calls_same: "new_calls s s = []"
  by (simp add: new_calls_def)

lemma decoded_rows_progressive:
  "decoded_rows (progressive_calls n s) =
     (if n \<le> nLastLineRead s then [0 ..< nat (n + 1)]
      else [nat (nLastLineRead s + 1) ..< nat (n + 1)])"
  by (simp add: progressive_calls_def decoded_rows_append decoded_rows_map)

lemma restarts_progressive:
  "restarts (progressive_calls n s) = (if n \<le> nLastLineRead s then 1 else 0)"
  by (simp add: progressive_calls_def restarts_append restarts_map) (simp add: restarts_def)

lemma image_decodes_progressive: "image_decodes (progressive_calls n s) = 0"
  by (simp add: progressive_calls_def image_decodes_append image_decodes_map)

lemma decoded_rows_interlaced: "decoded_rows (interlaced_calls s) = []"
  by (simp add: interlaced_calls_def)

lemma image_decodes_interlaced:
  "image_decodes (interlaced_calls s) = (if vsimalloc_ok s then 1 else 0)"
  by (simp add: interlaced_calls_def)

lemma restarts_interlaced:
  "restarts (interlaced_calls s) = (if nLastLineRead s \<noteq> - 1 then 1 else 0)"
  by (simp add: interlaced_calls_def restarts_def)

lemma wf_Open_prog4: "wf (Open prog4 True)"
  by (simp add: wf_def Open_def prog4_def rowbytes_def buffered_bytes_def)

subsection \<open>Served from the buffer, or decoded\<close>

text \<open>
  Claim C1, as stated, at a row outside the buffered range: on an interlaced dataset whose
  whole-image allocation fails, \<^verbatim>\<open>LoadScanline\<close> returns \<open>CE_Failure\<close> and has made
  no decode call at all.
\<close>

theorem LoadScanline_nomem_no_decode:
  "\<not> in_buffer 1 lace2_nomem \<and>
   LoadScanline 1 lace2_nomem = Some (CE_Failure, lace2_failed) \<and>
   decoded_rows (new_calls lace2_nomem lace2_failed) = [] \<and>
   image_decodes (new_calls lace2_nomem lace2_failed) = 0"
  by (simp add: lace2_failed_def lace2_nomem_def lace2_def Open_def in_buffer_def
        LoadScanline_def c_int_id size_t_id Restart_def new_calls_def)

text \<open>
  The outcomes of a request for a row of the image on a well-formed state: served from the
  buffer, decoded, or refused for want of memory.
\<close>

lemma LoadScanline_outcomes:
  assumes "wf s" and "0 \<le> R" and "R < nRasterYSize s"
  shows "(in_buffer R s \<longrightarrow> LoadScanline R s = Some (CE_None, s)) \<and>
    (\<not> in_buffer R s \<and> \<not> (bInterlaced s \<and> \<not> vsimalloc_ok s) \<longrightarrow>
       (\<exists>s'. LoadScanline R s = Some (CE_None, s') \<and>
             0 < length (decoded_rows (new_calls s s')) + image_decodes (new_calls s s'))) \<and>
    (\<not> in_buffer R s \<and> bInterlaced s \<and> \<not> vsimalloc_ok s \<longrightarrow>
       (\<exists>s'. LoadScanline R s = Some (CE_Failure, s') \<and>
             decoded_rows (new_calls s s') = [] \<and> image_decodes (new_calls s s') = 0)) \<and>
    ((\<exists>s'. LoadScanline R s = Some (CE_None, s') \<and>
           decoded_rows (new_calls s s') = [] \<and> image_decodes (new_calls s s') = 0)
       \<longleftrightarrow> in_buffer R s)"
proof -
  have a: "in_buffer R s \<Longrightarrow> LoadScanline R s = Some (CE_None, s)"
    by (rule LoadScanline_buffered)
  have b: "\<exists>s'. LoadScanline R s = Some (CE_None, s') \<and>
             0 < length (decoded_rows (new_calls s s')) + image_decodes (new_calls s s')"
    if nb: "\<not> in_buffer R s" and ok: "\<not> (bInterlaced s \<and> \<not> vsimalloc_ok s)"
  proof (cases "bInterlaced s")
    case True
    with ok have m: "vsimalloc_ok s" by simp
    from LoadScanline_interlaced_ok[OF assms(1) True nb m]
    have
      "LoadScanline R s =
        Some (CE_None,
           s\<lparr>hPNG := \<lparr>row_number = length (fpImage s),
                      packing = (if nLastLineRead s \<noteq> - 1 then nBitDepth s < 8
                                 else packing (hPNG s))\<rparr>,
             nLastLineRead := nRasterYSize s - 1,
             nBufferStartLine := 0,
             nBufferLines := nRasterYSize s,
             pabyBuffer := Some (concat (fpImage s)),
             calls := calls s @ interlaced_calls s\<rparr>)" (is "_ = Some (_, ?s')")
      by simp
    moreover have "new_calls s ?s' = interlaced_calls s" by (simp add: new_calls_def)
    ultimately show ?thesis using m by (simp add: image_decodes_interlaced)
  next
    case False
    let ?s' = "s\<lparr>pabyBuffer := Some (fpImage s ! nat R),
             hPNG := \<lparr>row_number = nat (R + 1),
                      packing = (if R \<le> nLastLineRead s then nBitDepth s < 8
                                 else packing (hPNG s))\<rparr>,
             calls := calls s @ progressive_calls R s,
             nLastLineRead := R,
             nBufferStartLine := R,
             nBufferLines := 1\<rparr>"
    have l: "LoadScanline R s = Some (CE_None, ?s')"
      by (rule LoadScanline_progressive[OF assms(1) False assms(2,3) nb])
    have nc: "new_calls s ?s' = progressive_calls R s" by (simp add: new_calls_def)
    have "-1 \<le> nLastLineRead s" using assms(1) by (simp add: wf_def)
    then have "0 < length (decoded_rows (progressive_calls R s))"
      using assms(2) by (auto simp: decoded_rows_progressive)
    then show ?thesis using l nc by simp
  qed
  have c: "\<exists>s'. LoadScanline R s = Some (CE_Failure, s') \<and>
             decoded_rows (new_calls s s') = [] \<and> image_decodes (new_calls s s') = 0"
    if nb: "\<not> in_buffer R s" and il: "bInterlaced s" and nm: "\<not> vsimalloc_ok s"
    using LoadScanline_interlaced_nomem[OF assms(1) il nb nm] nm
    by (simp add: new_calls_def decoded_rows_interlaced image_decodes_interlaced)
  have d: "(\<exists>s'. LoadScanline R s = Some (CE_None, s') \<and>
           decoded_rows (new_calls s s') = [] \<and> image_decodes (new_calls s s') = 0)
       \<longleftrightarrow> in_buffer R s"
  proof
    assume "in_buffer R s"
    then show "\<exists>s'. LoadScanline R s = Some (CE_None, s') \<and>
           decoded_rows (new_calls s s') = [] \<and> image_decodes (new_calls s s') = 0"
      using a by (simp add: new_calls_same)
  next
    assume ex: "\<exists>s'. LoadScanline R s = Some (CE_None, s') \<and>
           decoded_rows (new_calls s s') = [] \<and> image_decodes (new_calls s s') = 0"
    show "in_buffer R s"
    proof (rule ccontr)
      assume nb: "\<not> in_buffer R s"
      show False
      proof (cases "bInterlaced s \<and> \<not> vsimalloc_ok s")
        case True
        with c[OF nb] ex show False by auto
      next
        case False
        from b[OF nb False] ex show False by auto
      qed
    qed
  qed
  show ?thesis using a b c d by blast
qed

text \<open>
  Claim C1, amended. A request for a row in the buffered range returns \<open>CE_None\<close> at
  once and leaves the whole state as it was: no decode, no restart, no allocation. In a
  well-formed state, where in particular what the driver buffers (one row of a
  progressive image, the whole of an interlaced one) is less than \<open>2 ^ 31\<close> bytes, for a
  row of the image outside that range the call makes at least one decode call (one or
  more \<^verbatim>\<open>png_read_rows\<close>, or the \<^verbatim>\<open>png_read_image\<close>) and returns \<open>CE_None\<close>, except
  when the dataset is interlaced and the whole-image allocation fails: then it returns
  \<open>CE_Failure\<close> and has decoded nothing. So a request is served without decoding
  exactly when the row lies in the buffered range.
\<close>

theorem LoadScanline_decodes_unless_buffered:
  "(in_buffer R s \<longrightarrow> LoadScanline R s = Some (CE_None, s)) \<and>
   (wf s \<and> 0 \<le> R \<and> R < nRasterYSize s \<longrightarrow>
      (\<not> in_buffer R s \<and> \<not> (bInterlaced s \<and> \<not> vsimalloc_ok s) \<longrightarrow>
         (\<exists>s'. LoadScanline R s = Some (CE_None, s') \<and>
               0 < length (decoded_rows (new_calls s s')) + image_decodes (new_calls s s'))) \<and>
      (\<not> in_buffer R s \<and> bInterlaced s \<and> \<not> vsimalloc_ok s \<longrightarrow>
         (\<exists>s'. LoadScanline R s = Some (CE_Failure, s') \<and>
               decoded_rows (new_calls s s') = [] \<and> image_decodes (new_calls s s') = 0)) \<and>
      ((\<exists>s'. LoadScanline R s = Some (CE_None, s') \<and>
             decoded_rows (new_calls s s') = [] \<and> image_decodes (new_calls s s') = 0)
         \<longleftrightarrow> in_buffer R s))"
proof (rule conjI)
  show "in_buffer R s \<longrightarrow> LoadScanline R s = Some (CE_None, s)"
    by (simp add: LoadScanline_buffered)
next
  show "wf s \<and> 0 \<le> R \<and> R < nRasterYSize s \<longrightarrow>
      (\<not> in_buffer R s \<and> \<not> (bInterlaced s \<and> \<not> vsimalloc_ok s) \<longrightarrow>
         (\<exists>s'. LoadScanline R s = Some (CE_None, s') \<and>
               0 < length (decoded_rows (new_calls s s')) + image_decodes (new_calls s s'))) \<and>
      (\<not> in_buffer R s \<and> bInterlaced s \<and> \<not> vsimalloc_ok s \<longrightarrow>
         (\<exists>s'. LoadScanline R s = Some (CE_Failure, s') \<and>
               decoded_rows (new_calls s s') = [] \<and> image_decodes (new_calls s s') = 0)) \<and>
      ((\<exists>s'. LoadScanline R s = Some (CE_None, s') \<and>
             decoded_rows (new_calls s s') = [] \<and> image_decodes (new_calls s s') = 0)
         \<longleftrightarrow> in_buffer R s)"
  proof
    assume "wf s \<and> 0 \<le> R \<and> R < nRasterYSize s"
    then have "wf s" "0 \<le> R" "R < nRasterYSize s" by simp_all
    from LoadScanline_outcomes[OF this] show
     "(\<not> in_buffer R s \<and> \<not> (bInterlaced s \<and> \<not> vsimalloc_ok s) \<longrightarrow>
         (\<exists>s'. LoadScanline R s = Some (CE_None, s') \<and>
               0 < length (decoded_rows (new_calls s s')) + image_decodes (new_calls s s'))) \<and>
      (\<not> in_buffer R s \<and> bInterlaced s \<and> \<not> vsimalloc_ok s \<longrightarrow>
         (\<exists>s'. LoadScanline R s = Some (CE_Failure, s') \<and>
               decoded_rows (new_calls s s') = [] \<and> image_decodes (new_calls s s') = 0)) \<and>
      ((\<exists>s'. LoadScanline R s = Some (CE_None, s') \<and>
             decoded_rows (new_calls s s') = [] \<and> image_decodes (new_calls s s') = 0)
         \<longleftrightarrow> in_buffer R s)"
      by simp
  qed
qed

theorem LoadScanline_decodes_unless_buffered_witness:
  "wf (Open prog4 True) \<and> (0::int) \<le> 2 \<and> 2 < nRasterYSize (Open prog4 True) \<and>
   \<not> in_buffer 2 (Open prog4 True) \<and>
   (\<exists>s'. LoadScanline 2 (Open prog4 True) = Some (CE_None, s') \<and>
         0 < length (decoded_rows (new_calls (Open prog4 True) s'))
             + image_decodes (new_calls (Open prog4 True) s'))"
proof -
  have y: "2 < nRasterYSize (Open prog4 True)" by (simp add: Open_def prog4_def)
  have nb: "\<not> in_buffer 2 (Open prog4 True)" by (simp add: in_buffer_def Open_def)
  have pr: "\<not> (bInterlaced (Open prog4 True) \<and> \<not> vsimalloc_ok (Open prog4 True))"
    by (simp add: Open_def)
  from LoadScanline_decodes_unless_buffered[of 2 "Open prog4 True"] wf_Open_prog4 y nb pr
  show ?thesis by simp
qed

subsection \<open>Restart\<close>

text \<open>
  Claim C9. \<^verbatim>\<open>Restart()\<close> touches the decoder side only: it replaces the read structure
  by a fresh one that has read the header (next row 0, packing as the bit depth asks)
  and sets \<open>nLastLineRead\<close> to -1. The buffer, \<open>nBufferStartLine\<close> and \<open>nBufferLines\<close>
  are as they were, so the same rows count as buffered after a restart as before it, and
  the image parameters and the file are untouched.
\<close>

theorem Restart_keeps_buffer:
  "pabyBuffer (Restart s) = pabyBuffer s \<and>
   nBufferStartLine (Restart s) = nBufferStartLine s \<and>
   nBufferLines (Restart s) = nBufferLines s \<and>
   in_buffer n (Restart s) = in_buffer n s \<and>
   nLastLineRead (Restart s) = - 1 \<and>
   hPNG (Restart s) = \<lparr>row_number = 0, packing = (nBitDepth s < 8)\<rparr> \<and>
   calls (Restart s) = calls s @ [EvRestart] \<and>
   fpImage (Restart s) = fpImage s \<and>
   nRasterXSize (Restart s) = nRasterXSize s \<and>
   nRasterYSize (Restart s) = nRasterYSize s \<and>
   nBands (Restart s) = nBands s \<and>
   nBitDepth (Restart s) = nBitDepth s \<and>
   bInterlaced (Restart s) = bInterlaced s"
  by (simp add: Restart_def in_buffer_def)

subsection \<open>Well-formed states are kept\<close>

lemma wf_Open: "wf_file f \<Longrightarrow> wf (Open f mem)"
  by (auto simp: wf_file_def wf_def Open_def rowbytes_def)

lemma same_image_refl: "same_image s s"
  by (simp add: same_image_def)

lemma same_image_trans: "same_image s s' \<Longrightarrow> same_image s' s'' \<Longrightarrow> same_image s s''"
  by (simp add: same_image_def)

lemma rowbytes_update [simp]:
  "rowbytes (s\<lparr>pabyBuffer := a\<rparr>) = rowbytes s"
  "rowbytes (s\<lparr>hPNG := b\<rparr>) = rowbytes s"
  "rowbytes (s\<lparr>nLastLineRead := c\<rparr>) = rowbytes s"
  "rowbytes (s\<lparr>nBufferStartLine := d\<rparr>) = rowbytes s"
  "rowbytes (s\<lparr>nBufferLines := e\<rparr>) = rowbytes s"
  "rowbytes (s\<lparr>calls := g\<rparr>) = rowbytes s"
  "rowbytes (s\<lparr>vsimalloc_ok := h\<rparr>) = rowbytes s"
  by (simp_all add: rowbytes_def)


lemma same_image_FlushCache: "same_image s (FlushCache s)"
  by (simp add: same_image_def FlushCache_def)

text \<open>Every outcome of a row request on a well-formed state, in one statement.\<close>

lemma LoadScanline_cases:
  assumes wf: "wf s" and n0: "0 \<le> n" and nY: "n < nRasterYSize s"
  shows "\<exists>e s'. LoadScanline n s = Some (e, s') \<and> wf s' \<and> same_image s s' \<and>
           (\<exists>es. calls s' = calls s @ es \<and>
                 es = (if in_buffer n s then []
                       else if bInterlaced s then interlaced_calls s
                       else progressive_calls n s)) \<and>
           (e = CE_Failure \<longleftrightarrow> \<not> in_buffer n s \<and> bInterlaced s \<and> \<not> vsimalloc_ok s) \<and>
           (\<not> bInterlaced s \<longrightarrow> single_row_cache s \<longrightarrow> single_row_cache s') \<and>
           (\<not> bInterlaced s \<longrightarrow> \<not> in_buffer n s \<longrightarrow>
              nBufferStartLine s' = n \<and> nBufferLines s' = 1 \<and> nLastLineRead s' = n \<and>
              pabyBuffer s' = Some (fpImage s ! nat n)) \<and>
           (in_buffer n s \<longrightarrow> s' = s)"
proof (cases "in_buffer n s")
  case True
  then show ?thesis
    using LoadScanline_buffered[OF True] wf by (simp add: same_image_refl)
next
  case nb: False
  show ?thesis
  proof (cases "bInterlaced s")
    case False
    have Y: "nRasterYSize s = int (length (fpImage s))" using wf by (simp add: wf_def)
    have rows: "list_all (\<lambda>r. int (length r) = rowbytes s) (fpImage s)"
      using wf by (simp add: wf_def)
    have nlen: "nat n < length (fpImage s)" using n0 nY Y by linarith
    have rb: "int (length (fpImage s ! nat n)) = rowbytes s"
      using rows nlen by (simp add: list_all_length)
    show ?thesis
      using LoadScanline_progressive[OF wf False n0 nY nb] wf False nb n0 nY rb
      by (auto simp: wf_def same_image_def single_row_cache_def)
  next
    case True
    show ?thesis
    proof (cases "vsimalloc_ok s")
      case ok: True
      from LoadScanline_interlaced_ok[OF wf True nb ok] wf True nb ok
      show ?thesis
        by (auto simp: wf_def same_image_def)
    next
      case nomem: False
      from LoadScanline_interlaced_nomem[OF wf True nb nomem] wf True nb nomem
      show ?thesis
        by (auto simp: wf_def same_image_def)
    qed
  qed
qed

subsection \<open>The per-pixel loops stay inside their blocks\<close>

lemma peek_Some: "0 \<le> i \<Longrightarrow> i < int (length blk) \<Longrightarrow> peek blk i = Some (blk ! nat i)"
  by (simp add: peek_def)

lemma poke_Some: "0 \<le> i \<Longrightarrow> i < int (length blk) \<Longrightarrow> poke blk i b = Some (blk[nat i := b])"
  by (simp add: poke_def)

lemma stride_bound:
  fixes i X po :: int
  assumes "0 \<le> i" "i < X" "0 \<le> po"
  shows "i * po \<le> (X - 1) * po"
  using assms by (intro mult_right_mono) auto

lemma read_strided1_total:
  assumes "0 \<le> i" "0 \<le> scan" "0 \<le> po" "X \<le> int (length pImage)"
    and "scan + (X - 1) * po < int (length buf)"
  shows "\<exists>p. read_strided1 buf scan po X i pImage = Some p \<and> length p = length pImage"
  using assms
proof (induction buf scan po X i pImage rule: read_strided1.induct)
  case (1 buf scan po X i pImage)
  show ?case
  proof (cases "i < X")
    case False
    then show ?thesis by (subst read_strided1.simps) simp
  next
    case True
    have le: "i * po \<le> (X - 1) * po" using stride_bound[OF "1.prems"(1) True "1.prems"(3)] .
    have "0 \<le> i * po" using "1.prems" by simp
    then have idx: "0 \<le> scan + i * po" "scan + i * po < int (length buf)"
      using le "1.prems" by linarith+
    have pk: "peek buf (scan + i * po) = Some (buf ! nat (scan + i * po))"
      using idx by (rule peek_Some)
    have po: "poke pImage i (buf ! nat (scan + i * po)) = Some (pImage[nat i := buf ! nat (scan + i * po)])"
      using "1.prems" True by (intro poke_Some) linarith+
    from "1.IH"[OF True pk po] "1.prems"
    obtain p where "read_strided1 buf scan po X (i + 1) (pImage[nat i := buf ! nat (scan + i * po)]) = Some p"
      and "length p = length pImage"
      by auto
    then show ?thesis using True pk po by (subst read_strided1.simps) simp
  qed
qed

lemma read_strided2_total:
  assumes "0 \<le> i" "0 \<le> scan" "0 \<le> po" "2 * X \<le> int (length pImage)"
    and "scan + (X - 1) * po + 1 < int (length buf)"
  shows "\<exists>p. read_strided2 buf scan po X i pImage = Some p \<and> length p = length pImage"
  using assms
proof (induction buf scan po X i pImage rule: read_strided2.induct)
  case (1 buf scan po X i pImage)
  show ?case
  proof (cases "i < X")
    case False
    then show ?thesis by (subst read_strided2.simps) simp
  next
    case True
    have le: "i * po \<le> (X - 1) * po" using stride_bound[OF "1.prems"(1) True "1.prems"(3)] .
    have nn: "0 \<le> i * po" using "1.prems" by simp
    let ?b0 = "buf ! nat (scan + i * po)"
    let ?b1 = "buf ! nat (scan + (i * po + 1))"
    let ?p1 = "pImage[nat i := ?b0]"
    let ?p2 = "?p1[nat (i + 1) := ?b1]"
    have pk0: "peek buf (scan + i * po) = Some ?b0"
      using nn le "1.prems" by (intro peek_Some) linarith+
    have po0: "poke pImage i ?b0 = Some ?p1"
      using "1.prems" True by (intro poke_Some) linarith+
    have pk1: "peek buf (scan + (i * po + 1)) = Some ?b1"
      using nn le "1.prems" by (intro peek_Some) linarith+
    have i1: "0 \<le> i + 1" "i + 1 < int (length ?p1)"
      using "1.prems" True by simp_all
    have po1: "poke ?p1 (i + 1) ?b1 = Some ?p2"
      using i1 by (rule poke_Some)
    from "1.IH"[OF True pk0 po0 pk1 po1] "1.prems"
    obtain p where "read_strided2 buf scan po X (i + 1) ?p2 = Some p"
      and "length p = length pImage"
      by auto
    then show ?thesis using True pk0 po0 pk1 po1 by (subst read_strided2.simps) simp
  qed
qed

lemma write_strided1_total:
  assumes "0 \<le> i" "0 \<le> scan" "0 \<le> po" "X \<le> int (length pImage)"
    and "scan + (X - 1) * po < int (length buf)"
  shows "\<exists>b. write_strided1 buf scan po X i pImage = Some b \<and> length b = length buf"
  using assms
proof (induction buf scan po X i pImage rule: write_strided1.induct)
  case (1 buf scan po X i pImage)
  show ?case
  proof (cases "i < X")
    case False
    then show ?thesis by (subst write_strided1.simps) simp
  next
    case True
    have le: "i * po \<le> (X - 1) * po" using stride_bound[OF "1.prems"(1) True "1.prems"(3)] .
    have nn: "0 \<le> i * po" using "1.prems" by simp
    let ?b1 = "buf[nat (scan + i * po) := pImage ! nat i]"
    have pk: "peek pImage i = Some (pImage ! nat i)"
      using "1.prems" True by (intro peek_Some) linarith+
    have po: "poke buf (scan + i * po) (pImage ! nat i) = Some ?b1"
      using nn le "1.prems" by (intro poke_Some) linarith+
    from "1.IH"[OF True pk po] "1.prems"
    obtain b where "write_strided1 ?b1 scan po X (i + 1) pImage = Some b"
      and "length b = length buf"
      by auto
    then show ?thesis using True pk po by (subst write_strided1.simps) simp
  qed
qed

lemma write_strided2_total:
  assumes "0 \<le> i" "0 \<le> scan" "0 \<le> po" "2 * X \<le> int (length pImage)"
    and "scan + (X - 1) * po + 1 < int (length buf)"
  shows "\<exists>b. write_strided2 buf scan po X i pImage = Some b \<and> length b = length buf"
  using assms
proof (induction buf scan po X i pImage rule: write_strided2.induct)
  case (1 buf scan po X i pImage)
  show ?case
  proof (cases "i < X")
    case False
    then show ?thesis by (subst write_strided2.simps) simp
  next
    case True
    have le: "i * po \<le> (X - 1) * po" using stride_bound[OF "1.prems"(1) True "1.prems"(3)] .
    have nn: "0 \<le> i * po" using "1.prems" by simp
    let ?v0 = "pImage ! nat i"
    let ?v1 = "pImage ! nat (i + 1)"
    let ?b1 = "buf[nat (scan + i * po) := ?v0]"
    let ?b2 = "?b1[nat (scan + (i * po + 1)) := ?v1]"
    have pk0: "peek pImage i = Some ?v0"
      using "1.prems" True by (intro peek_Some) linarith+
    have po0: "poke buf (scan + i * po) ?v0 = Some ?b1"
      using nn le "1.prems" by (intro poke_Some) linarith+
    have pk1: "peek pImage (i + 1) = Some ?v1"
      using "1.prems" True by (intro peek_Some) linarith+
    have i1: "0 \<le> scan + (i * po + 1)" "scan + (i * po + 1) < int (length ?b1)"
      using nn le "1.prems" by simp_all
    have po1: "poke ?b1 (scan + (i * po + 1)) ?v1 = Some ?b2"
      using i1 by (rule poke_Some)
    from "1.IH"[OF True pk0 po0 pk1 po1] "1.prems"
    obtain b where "write_strided2 ?b2 scan po X (i + 1) pImage = Some b"
      and "length b = length buf"
      by auto
    then show ?thesis using True pk0 po0 pk1 po1 by (subst write_strided2.simps) simp
  qed
qed

subsection \<open>Block transfers in progressive mode\<close>

lemma progressive_row_ready:
  assumes wf: "wf s" and prog: "\<not> bInterlaced s" and cache: "single_row_cache s"
    and n0: "0 \<le> n" and nY: "n < nRasterYSize s"
  shows "\<exists>s1 buf. LoadScanline n s = Some (CE_None, s1) \<and> wf s1 \<and> same_image s s1 \<and>
           single_row_cache s1 \<and> nBufferStartLine s1 = n \<and> nBufferLines s1 = 1 \<and>
           pabyBuffer s1 = Some buf \<and> int (length buf) = rowbytes s"
proof -
  from LoadScanline_cases[OF wf n0 nY] obtain e s1 where
    l: "LoadScanline n s = Some (e, s1)" and w1: "wf s1" and si: "same_image s s1"
    and e: "e = CE_Failure \<longleftrightarrow> \<not> in_buffer n s \<and> bInterlaced s \<and> \<not> vsimalloc_ok s"
    and c1: "\<not> bInterlaced s \<longrightarrow> single_row_cache s \<longrightarrow> single_row_cache s1"
    and nb: "\<not> bInterlaced s \<longrightarrow> \<not> in_buffer n s \<longrightarrow>
              nBufferStartLine s1 = n \<and> nBufferLines s1 = 1 \<and> nLastLineRead s1 = n \<and>
              pabyBuffer s1 = Some (fpImage s ! nat n)"
    and ib: "in_buffer n s \<longrightarrow> s1 = s"
    by blast
  have eN: "e = CE_None" using e prog by (cases e) auto
  have sc1: "single_row_cache s1" using c1 prog cache by simp
  have st: "nBufferStartLine s1 = n \<and> nBufferLines s1 = 1 \<and> pabyBuffer s1 \<noteq> None"
  proof (cases "in_buffer n s")
    case True
    then show ?thesis using ib cache by (auto simp: in_buffer_def single_row_cache_def)
  next
    case False
    then show ?thesis using nb prog by simp
  qed
  then obtain buf where b: "pabyBuffer s1 = Some buf" by auto
  have "int (length buf) = rowbytes s1"
    using w1 b prog si by (simp add: wf_def same_image_def)
  moreover have "rowbytes s1 = rowbytes s" using si by (simp add: rowbytes_def same_image_def)
  ultimately show ?thesis using l eN w1 si sc1 st b by auto
qed

lemma IReadBlock_progressive_total:
  assumes wf: "wf s" and prog: "\<not> bInterlaced s" and cache: "single_row_cache s"
    and v: "valid_request s (ReadBlock b n pImage)"
  shows "\<exists>pImage' s1. IReadBlock b n pImage s = Some (CE_None, pImage', s1) \<and>
           LoadScanline n s = Some (CE_None, s1) \<and> length pImage' = length pImage"
proof -
  have n: "0 \<le> n" "n < nRasterYSize s" and b: "1 \<le> b" "b \<le> nBands s"
    and li: "int (length pImage) = (if nBitDepth s = 16 then 2 else 1) * nRasterXSize s"
    using v by simp_all
  from progressive_row_ready[OF wf prog cache n] obtain s1 buf where
    l: "LoadScanline n s = Some (CE_None, s1)" and st: "nBufferStartLine s1 = n"
    and pb: "pabyBuffer s1 = Some buf" and lb: "int (length buf) = rowbytes s"
    by blast
  define ps :: int where "ps = (if nBitDepth s = 16 then 2 else 1)"
  define po where "po = nBands s * ps"
  define X where "X = nRasterXSize s"
  define scan where "scan = (n - nBufferStartLine s1) * po * X + ps * (b - 1)"
  have X0: "0 \<le> X" using wf by (simp add: wf_def X_def)
  have ps12: "ps = 1 \<or> ps = 2" by (simp add: ps_def)
  have scan: "scan = ps * (b - 1)" by (simp add: scan_def st)
  have lbuf: "int (length buf) = po * X"
    using lb by (simp add: rowbytes_def po_def ps_def X_def)
  have limg: "int (length pImage) = ps * X" using li by (simp add: ps_def X_def)
  have unf: "IReadBlock b n pImage s =
      (case (if ps = po then read_bulk buf scan ps X pImage
             else if ps = 1 then read_strided1 buf scan po X 0 pImage
             else read_strided2 buf scan po X 0 pImage) of
         None \<Rightarrow> None
       | Some pImage' \<Rightarrow> Some (CE_None, pImage', s1))"
    using l pb by (simp add: IReadBlock_def Let_def ps_def po_def X_def scan_def)
  have "\<exists>p. (if ps = po then read_bulk buf scan ps X pImage
             else if ps = 1 then read_strided1 buf scan po X 0 pImage
             else read_strided2 buf scan po X 0 pImage) = Some p \<and> length p = length pImage"
  proof (cases "ps = po")
    case True
    then have nb1: "nBands s = 1" using ps12 by (auto simp: po_def)
    then have "b = 1" using b by simp
    then have "scan = 0" using scan by simp
    moreover have "length buf = length pImage" using lbuf limg True by simp
    ultimately show ?thesis
      using True lbuf limg X0 ps12
      by (auto simp: read_bulk_def memcpy_def peek_bytes_def poke_bytes_def)
  next
    case False
    have s0: "0 \<le> scan" using scan b ps12 by auto
    have po0: "0 \<le> po" using b ps12 by (auto simp: po_def)
    show ?thesis
    proof (cases "ps = 1")
      case True
      have "scan + (X - 1) * po < int (length buf)"
        using True b by (simp add: lbuf scan po_def algebra_simps)
      from read_strided1_total[OF _ s0 po0 _ this, of 0 pImage] limg True False
      show ?thesis by simp
    next
      case ps2: False
      then have p2: "ps = 2" using ps12 by simp
      have "scan + (X - 1) * po + 1 < int (length buf)"
        using p2 b by (simp add: lbuf scan po_def algebra_simps)
      from read_strided2_total[OF _ s0 po0 _ this, of 0 pImage] limg p2 False
      show ?thesis by simp
    qed
  qed
  then show ?thesis using unf l by auto
qed

lemma IWriteBlock_progressive_total:
  assumes wf: "wf s" and prog: "\<not> bInterlaced s" and cache: "single_row_cache s"
    and v: "valid_request s (WriteBlock b n pImage)"
  shows "\<exists>s1 buf buf'. IWriteBlock b n pImage s = Some (CE_None, s1\<lparr>pabyBuffer := Some buf'\<rparr>) \<and>
           LoadScanline n s = Some (CE_None, s1) \<and> pabyBuffer s1 = Some buf \<and>
           length buf' = length buf"
proof -
  have n: "0 \<le> n" "n < nRasterYSize s" and b: "1 \<le> b" "b \<le> nBands s"
    and li: "int (length pImage) = (if nBitDepth s = 16 then 2 else 1) * nRasterXSize s"
    using v by simp_all
  from progressive_row_ready[OF wf prog cache n] obtain s1 buf where
    l: "LoadScanline n s = Some (CE_None, s1)" and st: "nBufferStartLine s1 = n"
    and pb: "pabyBuffer s1 = Some buf" and lb: "int (length buf) = rowbytes s"
    and si: "same_image s s1"
    by blast
  define ps :: int where "ps = (if nBitDepth s = 16 then 2 else 1)"
  define po where "po = nBands s * ps"
  define X where "X = nRasterXSize s"
  define scan where "scan = (n - nBufferStartLine s1) * po * X + ps * (b - 1)"
  have X0: "0 \<le> X" using wf by (simp add: wf_def X_def)
  have ps12: "ps = 1 \<or> ps = 2" by (simp add: ps_def)
  have scan: "scan = ps * (b - 1)" by (simp add: scan_def st)
  have lbuf: "int (length buf) = po * X"
    using lb by (simp add: rowbytes_def po_def ps_def X_def)
  have limg: "int (length pImage) = ps * X" using li by (simp add: ps_def X_def)
  have unf: "IWriteBlock b n pImage s =
      (case (if ps = po then write_bulk buf scan ps X pImage
             else if ps = 1 then write_strided1 buf scan po X 0 pImage
             else write_strided2 buf scan po X 0 pImage) of
         None \<Rightarrow> None
       | Some buf' \<Rightarrow> Some (CE_None, s1\<lparr>pabyBuffer := Some buf'\<rparr>))"
    using l pb si
    by (simp add: IWriteBlock_def Let_def ps_def po_def X_def scan_def same_image_def)
  have "\<exists>p. (if ps = po then write_bulk buf scan ps X pImage
             else if ps = 1 then write_strided1 buf scan po X 0 pImage
             else write_strided2 buf scan po X 0 pImage) = Some p \<and> length p = length buf"
  proof (cases "ps = po")
    case True
    then have nb1: "nBands s = 1" using ps12 by (auto simp: po_def)
    then have "b = 1" using b by simp
    then have "scan = 0" using scan by simp
    moreover have "length buf = length pImage" using lbuf limg True by simp
    ultimately show ?thesis
      using True lbuf limg X0 ps12
      by (auto simp: write_bulk_def memcpy_def peek_bytes_def poke_bytes_def)
  next
    case False
    have s0: "0 \<le> scan" using scan b ps12 by auto
    have po0: "0 \<le> po" using b ps12 by (auto simp: po_def)
    show ?thesis
    proof (cases "ps = 1")
      case True
      have "scan + (X - 1) * po < int (length buf)"
        using True b by (simp add: lbuf scan po_def algebra_simps)
      from write_strided1_total[OF _ s0 po0 _ this, of 0 pImage] limg True False
      show ?thesis by simp
    next
      case ps2: False
      then have p2: "ps = 2" using ps12 by simp
      have "scan + (X - 1) * po + 1 < int (length buf)"
        using p2 b by (simp add: lbuf scan po_def algebra_simps)
      from write_strided2_total[OF _ s0 po0 _ this, of 0 pImage] limg p2 False
      show ?thesis by simp
    qed
  qed
  then show ?thesis using unf l pb by auto
qed

subsection \<open>Sequences of requests on a progressive dataset\<close>

lemma cursor_after_append:
  "cursor_after c (xs @ ys) =
     (case cursor_after c xs of None \<Rightarrow> None | Some c' \<Rightarrow> cursor_after c' ys)"
  by (induction c xs rule: cursor_after.induct) simp_all

lemma cursor_after_rows: "c \<le> m \<Longrightarrow> cursor_after c (map EvReadRows [c ..< m]) = Some m"
proof (induction "m - c" arbitrary: c)
  case 0
  then show ?case by simp
next
  case (Suc d)
  then have "c < m" by simp
  then have "[c ..< m] = c # [Suc c ..< m]" by (rule upt_conv_Cons)
  moreover have "cursor_after (Suc c) (map EvReadRows [Suc c ..< m]) = Some m"
    using Suc by (intro Suc.hyps) auto
  ultimately show ?case by simp
qed

lemma cursor_after_progressive:
  assumes "int c = nLastLineRead s + 1" and "0 \<le> n"
  shows "cursor_after c (progressive_calls n s) = Some (nat (n + 1))"
proof -
  have a: "cursor_after 0 (map EvReadRows [0 ..< nat (n + 1)]) = Some (nat (n + 1))"
    by (rule cursor_after_rows) simp
  have b: "cursor_after c (map EvReadRows [c ..< nat (n + 1)]) = Some (nat (n + 1))"
    if "\<not> n \<le> nLastLineRead s"
    using that assms by (intro cursor_after_rows) linarith
  have c: "nat (nLastLineRead s + 1) = c" using assms by linarith
  show ?thesis
    using a b c by (auto simp: progressive_calls_def cursor_after_append)
qed

lemma valid_request_same_image:
  "same_image s s' \<Longrightarrow> valid_request s' r = valid_request s r"
  by (cases r) (simp_all add: same_image_def)

lemma Load_progressive:
  assumes inv: "progressive_inv s" and n0: "0 \<le> n" and nY: "n < nRasterYSize s"
  shows "\<exists>s'. LoadScanline n s = Some (CE_None, s') \<and> progressive_inv s' \<and> same_image s s'"
proof -
  have wf: "wf s" and prog: "\<not> bInterlaced s" and cache: "single_row_cache s"
    and fwd: "forward_only s"
    using inv by (simp_all add: progressive_inv_def)
  have sync: "int (row_number (hPNG s)) = nLastLineRead s + 1" using wf by (simp add: wf_def)
  from LoadScanline_cases[OF wf n0 nY] obtain e s' where
    l: "LoadScanline n s = Some (e, s')" and w1: "wf s'" and si: "same_image s s'"
    and cs: "calls s' = calls s @ (if in_buffer n s then []
                       else if bInterlaced s then interlaced_calls s
                       else progressive_calls n s)"
    and e: "e = CE_Failure \<longleftrightarrow> \<not> in_buffer n s \<and> bInterlaced s \<and> \<not> vsimalloc_ok s"
    and c1: "\<not> bInterlaced s \<longrightarrow> single_row_cache s \<longrightarrow> single_row_cache s'"
    and nb: "\<not> bInterlaced s \<longrightarrow> \<not> in_buffer n s \<longrightarrow>
              nBufferStartLine s' = n \<and> nBufferLines s' = 1 \<and> nLastLineRead s' = n \<and>
              pabyBuffer s' = Some (fpImage s ! nat n)"
    and ib: "in_buffer n s \<longrightarrow> s' = s"
    by blast
  have eN: "e = CE_None" using e prog by (cases e) auto
  have fwd': "forward_only s'"
  proof (cases "in_buffer n s")
    case True
    then show ?thesis using ib fwd by simp
  next
    case False
    have "int (row_number (hPNG s')) = nLastLineRead s' + 1" using w1 by (simp add: wf_def)
    then have rn: "row_number (hPNG s') = nat (n + 1)" using nb prog False by simp
    have "cursor_after 0 (calls s') = cursor_after (row_number (hPNG s)) (progressive_calls n s)"
      using cs False prog fwd by (simp add: cursor_after_append forward_only_def)
    also have "\<dots> = Some (nat (n + 1))"
      by (rule cursor_after_progressive[OF sync n0])
    finally show ?thesis using rn by (simp add: forward_only_def)
  qed
  show ?thesis
    using l eN w1 si c1 prog cache fwd' by (auto simp: progressive_inv_def same_image_def)
qed

lemma perform_progressive:
  assumes inv: "progressive_inv s" and v: "valid_request s r"
  shows "\<exists>s'. perform r s = Some s' \<and> progressive_inv s' \<and> same_image s s'"
proof (cases r)
  case (Load n)
  then show ?thesis using Load_progressive[OF inv, of n] v by auto
next
  case Flush
  have "progressive_inv (FlushCache s)"
    using inv by (auto simp: progressive_inv_def wf_def FlushCache_def single_row_cache_def
                     forward_only_def)
  then show ?thesis using Flush by (simp add: same_image_FlushCache)
next
  case (ReadBlock b n img)
  have wf: "wf s" and prog: "\<not> bInterlaced s" and cache: "single_row_cache s"
    using inv by (simp_all add: progressive_inv_def)
  have n: "0 \<le> n" "n < nRasterYSize s" using v ReadBlock by simp_all
  from IReadBlock_progressive_total[OF wf prog cache v[unfolded ReadBlock]]
  obtain img' s1 where r: "IReadBlock b n img s = Some (CE_None, img', s1)"
    and l: "LoadScanline n s = Some (CE_None, s1)"
    by blast
  from Load_progressive[OF inv n] l have "progressive_inv s1 \<and> same_image s s1" by simp
  then show ?thesis using ReadBlock r by simp
next
  case (WriteBlock b n img)
  have wf: "wf s" and prog: "\<not> bInterlaced s" and cache: "single_row_cache s"
    using inv by (simp_all add: progressive_inv_def)
  have n: "0 \<le> n" "n < nRasterYSize s" using v WriteBlock by simp_all
  from IWriteBlock_progressive_total[OF wf prog cache v[unfolded WriteBlock]]
  obtain s1 buf buf' where r: "IWriteBlock b n img s = Some (CE_None, s1\<lparr>pabyBuffer := Some buf'\<rparr>)"
    and l: "LoadScanline n s = Some (CE_None, s1)"
    and pb: "pabyBuffer s1 = Some buf" and len: "length buf' = length buf"
    by blast
  from Load_progressive[OF inv n] l have i1: "progressive_inv s1" and si: "same_image s s1"
    by simp_all
  have "progressive_inv (s1\<lparr>pabyBuffer := Some buf'\<rparr>)"
    using i1 pb len
    by (auto simp: progressive_inv_def wf_def single_row_cache_def forward_only_def)
  moreover have "same_image s (s1\<lparr>pabyBuffer := Some buf'\<rparr>)"
    using si by (simp add: same_image_def)
  ultimately show ?thesis using WriteBlock r by simp
qed

lemma run_progressive:
  assumes "progressive_inv s" and "list_all (valid_request s) reqs"
  shows "\<exists>s'. run reqs s = Some s' \<and> progressive_inv s' \<and> same_image s s'"
  using assms
proof (induction reqs arbitrary: s)
  case Nil
  then show ?case by (simp add: same_image_refl)
next
  case (Cons r reqs)
  from perform_progressive[OF Cons.prems(1), of r] Cons.prems(2)
  obtain s1 where p: "perform r s = Some s1" and i1: "progressive_inv s1"
    and si: "same_image s s1"
    by auto
  have "list_all (valid_request s1) reqs"
    using Cons.prems(2) valid_request_same_image[OF si] by (simp add: list_all_iff)
  from Cons.IH[OF i1 this] obtain s' where "run reqs s1 = Some s'" "progressive_inv s'"
    "same_image s1 s'"
    by blast
  then show ?case using p si by (auto intro: same_image_trans)
qed

lemma progressive_inv_Open:
  "wf_file f \<Longrightarrow> \<not> interlaced f \<Longrightarrow> progressive_inv (Open f mem)"
  using wf_Open[of f]
  by (simp add: progressive_inv_def single_row_cache_def forward_only_def) (simp add: Open_def)


lemma wf_file_prog4: "wf_file prog4"
  by (simp add: wf_file_def buffered_bytes_def prog4_def)

lemma wf_file_lace2: "wf_file lace2"
  by (simp add: wf_file_def buffered_bytes_def lace2_def)


lemma progressive_inv_cursor:
  "progressive_inv s \<Longrightarrow> cursor_after 0 (calls s) = Some (nat (nLastLineRead s + 1))"
  by (auto simp: progressive_inv_def forward_only_def wf_def)

lemma run_prog4_forward:
  "map_option calls (run [Load 0, Load 1, Load 2, Load 3] (Open prog4 True))
     = Some [EvMalloc 4, EvReadRows 0, EvReadRows 1, EvReadRows 2, EvReadRows 3]"
  by (simp add: prog4_def Open_def LoadScanline_def c_int_id size_t_id read_till.simps
        png_read_rows_def poke_bytes_def)

lemma run_prog4_back:
  "map_option calls (run [Load 0, Load 1, Load 2, Load 3, Load 1] (Open prog4 True))
     = Some [EvMalloc 4, EvReadRows 0, EvReadRows 1, EvReadRows 2, EvReadRows 3,
             EvRestart, EvReadRows 0, EvReadRows 1]"
  by (simp add: prog4_def Open_def LoadScanline_def c_int_id size_t_id read_till.simps Restart_def
        png_read_rows_def poke_bytes_def)

lemma progressive_request_calls:
  assumes wf: "wf s" and prog: "\<not> bInterlaced s" and n0: "0 \<le> n" and nY: "n < nRasterYSize s"
  shows "\<exists>s'. LoadScanline n s = Some (CE_None, s') \<and>
        (in_buffer n s \<longrightarrow> new_calls s s' = []) \<and>
        (\<not> in_buffer n s \<and> nLastLineRead s < n \<longrightarrow>
            restarts (new_calls s s') = 0 \<and>
            decoded_rows (new_calls s s') = [nat (nLastLineRead s + 1) ..< nat (n + 1)] \<and>
            int (length (decoded_rows (new_calls s s'))) = n - nLastLineRead s) \<and>
        (\<not> in_buffer n s \<and> n \<le> nLastLineRead s \<longrightarrow>
            restarts (new_calls s s') = 1 \<and>
            decoded_rows (new_calls s s') = [0 ..< nat (n + 1)] \<and>
            int (length (decoded_rows (new_calls s s'))) = n + 1)"
proof (cases "in_buffer n s")
  case True
  then show ?thesis using LoadScanline_buffered[OF True] by (simp add: new_calls_same)
next
  case False
  have m1: "- 1 \<le> nLastLineRead s" using wf by (simp add: wf_def)
  let ?s' = "s\<lparr>pabyBuffer := Some (fpImage s ! nat n),
             hPNG := \<lparr>row_number = nat (n + 1),
                      packing = (if n \<le> nLastLineRead s then nBitDepth s < 8
                                 else packing (hPNG s))\<rparr>,
             calls := calls s @ progressive_calls n s,
             nLastLineRead := n,
             nBufferStartLine := n,
             nBufferLines := 1\<rparr>"
  have l: "LoadScanline n s = Some (CE_None, ?s')"
    by (rule LoadScanline_progressive[OF wf prog n0 nY False])
  have nc: "new_calls s ?s' = progressive_calls n s" by (simp add: new_calls_def)
  have len: "nLastLineRead s < n \<Longrightarrow>
      int (length [nat (nLastLineRead s + 1) ..< nat (n + 1)]) = n - nLastLineRead s"
    using m1 by simp
  show ?thesis
    using l nc False n0 len
    by (auto simp: decoded_rows_progressive restarts_progressive)
qed

lemma IReadBlock_buffered_same:
  assumes "in_buffer n s" "in_buffer n t" "pabyBuffer t = pabyBuffer s"
    "nBufferStartLine t = nBufferStartLine s" "nRasterXSize t = nRasterXSize s"
    "nBands t = nBands s" "nBitDepth t = nBitDepth s"
  shows "map_option (\<lambda>(e, p', u). (e, p')) (IReadBlock b n p t)
           = map_option (\<lambda>(e, p', u). (e, p')) (IReadBlock b n p s)"
  using assms
  by (simp add: IReadBlock_def LoadScanline_buffered Let_def split: option.splits)

subsection \<open>The single-row cache\<close>

text \<open>
  Claim C10. In progressive mode a \<^verbatim>\<open>LoadScanline(nLine)\<close> for a row of the image that
  is not in the buffer succeeds and leaves \<open>nBufferStartLine = nLine\<close>,
  \<open>nBufferLines = 1\<close> and \<open>nLastLineRead = nLine\<close>. Hence after any sequence of
  requests on an opened progressive dataset (row loads, cache flushes, band reads and
  writes) \<open>nBufferLines\<close> is 0 or 1, and when it is 1 the buffered row is the row at the
  decode cursor.
\<close>

theorem single_row_cache_between_calls:
  "(wf s \<and> \<not> bInterlaced s \<and> 0 \<le> n \<and> n < nRasterYSize s \<and> \<not> in_buffer n s \<longrightarrow>
      (\<exists>s'. LoadScanline n s = Some (CE_None, s') \<and>
            nBufferStartLine s' = n \<and> nBufferLines s' = 1 \<and> nLastLineRead s' = n)) \<and>
   (wf_file f \<and> \<not> interlaced f \<and> list_all (valid_request (Open f mem)) reqs \<longrightarrow>
      (\<exists>s'. run reqs (Open f mem) = Some s' \<and>
            (nBufferLines s' = 0 \<or> nBufferLines s' = 1) \<and>
            (nBufferLines s' = 1 \<longrightarrow> nBufferStartLine s' = nLastLineRead s')))"
proof (intro conjI impI)
  assume a: "wf s \<and> \<not> bInterlaced s \<and> 0 \<le> n \<and> n < nRasterYSize s \<and> \<not> in_buffer n s"
  then have "LoadScanline n s =
     Some (CE_None,
           s\<lparr>pabyBuffer := Some (fpImage s ! nat n),
             hPNG := \<lparr>row_number = nat (n + 1),
                      packing = (if n \<le> nLastLineRead s then nBitDepth s < 8
                                 else packing (hPNG s))\<rparr>,
             calls := calls s @ progressive_calls n s,
             nLastLineRead := n,
             nBufferStartLine := n,
             nBufferLines := 1\<rparr>)"
    by (intro LoadScanline_progressive) simp_all
  then show "\<exists>s'. LoadScanline n s = Some (CE_None, s') \<and>
            nBufferStartLine s' = n \<and> nBufferLines s' = 1 \<and> nLastLineRead s' = n"
    by simp
next
  assume a: "wf_file f \<and> \<not> interlaced f \<and> list_all (valid_request (Open f mem)) reqs"
  then have "progressive_inv (Open f mem)" by (simp add: progressive_inv_Open)
  from run_progressive[OF this] a obtain s' where
    r: "run reqs (Open f mem) = Some s'" and i: "progressive_inv s'"
    by blast
  from i have "single_row_cache s'" by (simp add: progressive_inv_def)
  then show "\<exists>s'. run reqs (Open f mem) = Some s' \<and>
            (nBufferLines s' = 0 \<or> nBufferLines s' = 1) \<and>
            (nBufferLines s' = 1 \<longrightarrow> nBufferStartLine s' = nLastLineRead s')"
    using r by (auto simp: single_row_cache_def)
qed

theorem single_row_cache_between_calls_witness:
  "wf (Open prog4 True) \<and> \<not> bInterlaced (Open prog4 True) \<and> (0::int) \<le> 2 \<and>
   2 < nRasterYSize (Open prog4 True) \<and> \<not> in_buffer 2 (Open prog4 True) \<and>
   (\<exists>s'. LoadScanline 2 (Open prog4 True) = Some (CE_None, s') \<and>
         nBufferStartLine s' = 2 \<and> nBufferLines s' = 1 \<and> nLastLineRead s' = 2) \<and>
   wf_file prog4 \<and> \<not> interlaced prog4 \<and>
   list_all (valid_request (Open prog4 True))
     [Load 3, WriteBlock 2 3 [7, 7], Flush, ReadBlock 1 1 [0, 0], Load 1] \<and>
   (\<exists>s'. run [Load 3, WriteBlock 2 3 [7, 7], Flush, ReadBlock 1 1 [0, 0], Load 1] (Open prog4 True)
           = Some s' \<and>
         (nBufferLines s' = 0 \<or> nBufferLines s' = 1) \<and>
         (nBufferLines s' = 1 \<longrightarrow> nBufferStartLine s' = nLastLineRead s'))"
proof -
  have a: "\<not> bInterlaced (Open prog4 True)" "(0::int) \<le> 2" "2 < nRasterYSize (Open prog4 True)"
    "\<not> in_buffer 2 (Open prog4 True)"
    by (simp_all add: Open_def prog4_def in_buffer_def)
  have b: "\<not> interlaced prog4" by (simp add: prog4_def)
  have c: "list_all (valid_request (Open prog4 True))
     [Load 3, WriteBlock 2 3 [7, 7], Flush, ReadBlock 1 1 [0, 0], Load 1]"
    by (simp add: Open_def prog4_def)
  from single_row_cache_between_calls[of "Open prog4 True" 2 prog4 True
      "[Load 3, WriteBlock 2 3 [7, 7], Flush, ReadBlock 1 1 [0, 0], Load 1]"]
  show ?thesis using wf_Open_prog4 wf_file_prog4 a b c by blast
qed

subsection \<open>Forward decoding\<close>

text \<open>
  Claim C3, as stated, on the 4-row example: after row 0, the request for row 1 makes one
  \<^verbatim>\<open>png_read_rows\<close> call, while no row lies strictly between row 0 and row 1.
\<close>

theorem decode_count_not_strictly_between:
  "LoadScanline 0 (Open prog4 True) = Some (CE_None, prog4_at0) \<and>
   nLastLineRead prog4_at0 = 0 \<and>
   map_option (decoded_rows \<circ> new_calls prog4_at0 \<circ> snd) (LoadScanline 1 prog4_at0) = Some [1] \<and>
   strictly_between (nLastLineRead prog4_at0) 1 = []"
  by (simp add: prog4_at0_def prog4_def Open_def LoadScanline_def c_int_id size_t_id read_till.simps
        png_read_rows_def poke_bytes_def new_calls_def strictly_between_def)

text \<open>
  Claim C3, amended. In progressive mode a request for a row \<open>n\<close> of the image ahead of
  the cursor makes no restart and one \<^verbatim>\<open>png_read_rows\<close> call for each row after the
  cursor up to and including \<open>n\<close>, in order: \<open>n - nLastLineRead\<close> calls. A request for
  a row at or behind the cursor that is not buffered makes one restart and then decodes
  rows 0 to \<open>n\<close>; a buffered row makes no call. Over any sequence of requests every
  \<^verbatim>\<open>png_read_rows\<close> produces the row that follows the one produced before it since the
  latest restart, so no row is decoded twice without a restart in between. On the 4-row
  image, rows 0, 1, 2, 3 in order make 4 decode calls and no restart, and row 1 after
  them makes one restart and 2 decode calls, for rows 0 and 1.
\<close>

theorem progressive_decode_calls:
  "(wf s \<and> \<not> bInterlaced s \<and> 0 \<le> n \<and> n < nRasterYSize s \<longrightarrow>
     (\<exists>s'. LoadScanline n s = Some (CE_None, s') \<and>
        (in_buffer n s \<longrightarrow> new_calls s s' = []) \<and>
        (\<not> in_buffer n s \<and> nLastLineRead s < n \<longrightarrow>
            restarts (new_calls s s') = 0 \<and>
            decoded_rows (new_calls s s') = [nat (nLastLineRead s + 1) ..< nat (n + 1)] \<and>
            int (length (decoded_rows (new_calls s s'))) = n - nLastLineRead s) \<and>
        (\<not> in_buffer n s \<and> n \<le> nLastLineRead s \<longrightarrow>
            restarts (new_calls s s') = 1 \<and>
            decoded_rows (new_calls s s') = [0 ..< nat (n + 1)] \<and>
            int (length (decoded_rows (new_calls s s'))) = n + 1))) \<and>
   (wf_file f \<and> \<not> interlaced f \<and> list_all (valid_request (Open f mem)) reqs \<longrightarrow>
     (\<exists>s'. run reqs (Open f mem) = Some s' \<and>
           cursor_after 0 (calls s') = Some (nat (nLastLineRead s' + 1)))) \<and>
   map_option calls (run [Load 0, Load 1, Load 2, Load 3] (Open prog4 True))
     = Some [EvMalloc 4, EvReadRows 0, EvReadRows 1, EvReadRows 2, EvReadRows 3] \<and>
   map_option calls (run [Load 0, Load 1, Load 2, Load 3, Load 1] (Open prog4 True))
     = Some [EvMalloc 4, EvReadRows 0, EvReadRows 1, EvReadRows 2, EvReadRows 3,
             EvRestart, EvReadRows 0, EvReadRows 1]"
proof (intro conjI impI)
  assume "wf s \<and> \<not> bInterlaced s \<and> 0 \<le> n \<and> n < nRasterYSize s"
  then show "\<exists>s'. LoadScanline n s = Some (CE_None, s') \<and>
        (in_buffer n s \<longrightarrow> new_calls s s' = []) \<and>
        (\<not> in_buffer n s \<and> nLastLineRead s < n \<longrightarrow>
            restarts (new_calls s s') = 0 \<and>
            decoded_rows (new_calls s s') = [nat (nLastLineRead s + 1) ..< nat (n + 1)] \<and>
            int (length (decoded_rows (new_calls s s'))) = n - nLastLineRead s) \<and>
        (\<not> in_buffer n s \<and> n \<le> nLastLineRead s \<longrightarrow>
            restarts (new_calls s s') = 1 \<and>
            decoded_rows (new_calls s s') = [0 ..< nat (n + 1)] \<and>
            int (length (decoded_rows (new_calls s s'))) = n + 1)"
    by (intro progressive_request_calls) simp_all
next
  assume a: "wf_file f \<and> \<not> interlaced f \<and> list_all (valid_request (Open f mem)) reqs"
  then have "progressive_inv (Open f mem)" by (simp add: progressive_inv_Open)
  from run_progressive[OF this] a obtain s' where
    "run reqs (Open f mem) = Some s'" and "progressive_inv s'"
    by blast
  then show "\<exists>s'. run reqs (Open f mem) = Some s' \<and>
           cursor_after 0 (calls s') = Some (nat (nLastLineRead s' + 1))"
    using progressive_inv_cursor by blast
next
  show "map_option calls (run [Load 0, Load 1, Load 2, Load 3] (Open prog4 True))
     = Some [EvMalloc 4, EvReadRows 0, EvReadRows 1, EvReadRows 2, EvReadRows 3]"
    by (rule run_prog4_forward)
next
  show "map_option calls (run [Load 0, Load 1, Load 2, Load 3, Load 1] (Open prog4 True))
     = Some [EvMalloc 4, EvReadRows 0, EvReadRows 1, EvReadRows 2, EvReadRows 3,
             EvRestart, EvReadRows 0, EvReadRows 1]"
    by (rule run_prog4_back)
qed

theorem progressive_decode_calls_witness:
  "wf prog4_at0 \<and> \<not> bInterlaced prog4_at0 \<and> (0::int) \<le> 3 \<and> 3 < nRasterYSize prog4_at0 \<and>
   \<not> in_buffer 3 prog4_at0 \<and> nLastLineRead prog4_at0 < 3 \<and>
   (\<exists>s'. LoadScanline 3 prog4_at0 = Some (CE_None, s') \<and>
         restarts (new_calls prog4_at0 s') = 0 \<and>
         decoded_rows (new_calls prog4_at0 s') = [1, 2, 3] \<and>
         int (length (decoded_rows (new_calls prog4_at0 s'))) = 3) \<and>
   wf_file prog4 \<and> \<not> interlaced prog4 \<and>
   list_all (valid_request (Open prog4 True)) [Load 2, Load 1, Flush, Load 1] \<and>
   (\<exists>s'. run [Load 2, Load 1, Flush, Load 1] (Open prog4 True) = Some s' \<and>
         cursor_after 0 (calls s') = Some (nat (nLastLineRead s' + 1)))"
proof -
  have a: "wf prog4_at0" "\<not> bInterlaced prog4_at0" "(0::int) \<le> 3" "3 < nRasterYSize prog4_at0"
    "\<not> in_buffer 3 prog4_at0" "nLastLineRead prog4_at0 < 3"
    by (simp_all add: prog4_at0_def wf_def buffered_bytes_def rowbytes_def Open_def prog4_def in_buffer_def)
  have b: "\<not> interlaced prog4"
    "list_all (valid_request (Open prog4 True)) [Load 2, Load 1, Flush, Load 1]"
    by (simp_all add: Open_def prog4_def)
  have u: "[nat (nLastLineRead prog4_at0 + 1) ..< nat (3 + 1)] = [1, 2, 3]"
    by (simp add: prog4_at0_def upt_rec)
  from progressive_decode_calls[of prog4_at0 3 prog4 True "[Load 2, Load 1, Flush, Load 1]"]
  show ?thesis using a b wf_file_prog4 u by auto
qed

subsection \<open>Going back\<close>

text \<open>
  Claim C4. On a progressive dataset, after any history of requests, for rows
  \<open>j < k\<close> of the image: \<^verbatim>\<open>LoadScanline(k)\<close> followed by \<^verbatim>\<open>LoadScanline(j)\<close> both
  succeed, the second call makes exactly one restart, and it leaves in the buffer the
  bytes of row \<open>j\<close> of the image, the same bytes, at the same buffer position, that
  \<^verbatim>\<open>LoadScanline(j)\<close> leaves as the first request on the freshly opened dataset; so every
  band read of row \<open>j\<close> delivers the same bytes in both. On the freshly opened dataset the
  first call makes no restart, so the two calls make exactly one.
\<close>

theorem restart_yields_same_row:
  assumes wff: "wf_file f" and prog: "\<not> interlaced f"
    and reqs: "list_all (valid_request (Open f mem)) reqs"
    and j0: "0 \<le> j" and jk: "j < k" and kY: "k < image_height f"
  shows "\<exists>s sk s2 sj sk0.
           run reqs (Open f mem) = Some s \<and>
           LoadScanline k s = Some (CE_None, sk) \<and>
           LoadScanline j sk = Some (CE_None, s2) \<and>
           restarts (new_calls sk s2) = 1 \<and>
           LoadScanline j (Open f mem) = Some (CE_None, sj) \<and>
           pabyBuffer s2 = Some (pixel_rows f ! nat j) \<and>
           pabyBuffer sj = Some (pixel_rows f ! nat j) \<and>
           nBufferStartLine s2 = j \<and> nBufferStartLine sj = j \<and>
           nBufferLines s2 = 1 \<and> nBufferLines sj = 1 \<and>
           (\<forall>b p. map_option (\<lambda>(e, p', u). (e, p')) (IReadBlock b j p s2)
                    = map_option (\<lambda>(e, p', u). (e, p')) (IReadBlock b j p sj)) \<and>
           LoadScanline k (Open f mem) = Some (CE_None, sk0) \<and>
           restarts (calls sk0) = 0"
proof -
  let ?o = "Open f mem"
  have io: "progressive_inv ?o" by (rule progressive_inv_Open[OF wff prog])
  have wo: "wf ?o" and po: "\<not> bInterlaced ?o"
    using io by (simp_all add: progressive_inv_def)
  have Yo: "nRasterYSize ?o = image_height f" and Io: "fpImage ?o = pixel_rows f"
    and Lo: "nLastLineRead ?o = - 1" and Co: "calls ?o = []"
    by (simp_all add: Open_def)
  have nbo: "\<not> in_buffer r ?o" for r by (simp add: in_buffer_def Open_def)
  \<comment> \<open>the dataset after any history of requests\<close>
  from run_progressive[OF io reqs] obtain s where
    r: "run reqs ?o = Some s" and ivs: "progressive_inv s" and sis: "same_image ?o s"
    by blast
  have Ys: "nRasterYSize s = image_height f" and Is: "fpImage s = pixel_rows f"
    using sis Yo Io by (simp_all add: same_image_def)
  have k0: "0 \<le> k" using j0 jk by simp
  \<comment> \<open>row \<open>k\<close>\<close>
  from Load_progressive[OF ivs k0] kY Ys obtain sk where
    lk: "LoadScanline k s = Some (CE_None, sk)" and isk: "progressive_inv sk"
    and sik: "same_image s sk"
    by auto
  have wsk: "wf sk" and psk: "\<not> bInterlaced sk" and csk: "single_row_cache sk"
    using isk by (simp_all add: progressive_inv_def)
  have ws: "wf s" and ps: "\<not> bInterlaced s" and cs: "single_row_cache s"
    using ivs by (simp_all add: progressive_inv_def)
  have Ysk: "nRasterYSize sk = image_height f" and Isk: "fpImage sk = pixel_rows f"
    using sik Ys Is by (simp_all add: same_image_def)
  have atk: "nBufferLines sk = 1 \<and> nBufferStartLine sk = k \<and> nLastLineRead sk = k"
  proof (cases "in_buffer k s")
    case True
    then have "sk = s" using lk LoadScanline_buffered[OF True] by simp
    then show ?thesis using True cs by (auto simp: in_buffer_def single_row_cache_def)
  next
    case False
    from LoadScanline_progressive[OF ws ps k0 _ False] kY Ys lk show ?thesis by auto
  qed
  \<comment> \<open>then row \<open>j\<close>, behind the cursor\<close>
  have nbj: "\<not> in_buffer j sk" using atk jk by (simp add: in_buffer_def)
  have jY: "j < nRasterYSize sk" using jk kY Ysk by simp
  let ?s2 = "sk\<lparr>pabyBuffer := Some (fpImage sk ! nat j),
             hPNG := \<lparr>row_number = nat (j + 1),
                      packing = (if j \<le> nLastLineRead sk then nBitDepth sk < 8
                                 else packing (hPNG sk))\<rparr>,
             calls := calls sk @ progressive_calls j sk,
             nLastLineRead := j,
             nBufferStartLine := j,
             nBufferLines := 1\<rparr>"
  have l2: "LoadScanline j sk = Some (CE_None, ?s2)"
    by (rule LoadScanline_progressive[OF wsk psk j0 jY nbj])
  have r2: "restarts (new_calls sk ?s2) = 1"
    using atk jk by (simp add: new_calls_def restarts_progressive)
  \<comment> \<open>row \<open>j\<close> as the first request on the opened dataset\<close>
  let ?sj = "?o\<lparr>pabyBuffer := Some (fpImage ?o ! nat j),
             hPNG := \<lparr>row_number = nat (j + 1),
                      packing = (if j \<le> nLastLineRead ?o then nBitDepth ?o < 8
                                 else packing (hPNG ?o))\<rparr>,
             calls := calls ?o @ progressive_calls j ?o,
             nLastLineRead := j,
             nBufferStartLine := j,
             nBufferLines := 1\<rparr>"
  have lj: "LoadScanline j ?o = Some (CE_None, ?sj)"
    using jk kY Yo by (intro LoadScanline_progressive[OF wo po j0 _ nbo]) simp
  let ?sk0 = "?o\<lparr>pabyBuffer := Some (fpImage ?o ! nat k),
             hPNG := \<lparr>row_number = nat (k + 1),
                      packing = (if k \<le> nLastLineRead ?o then nBitDepth ?o < 8
                                 else packing (hPNG ?o))\<rparr>,
             calls := calls ?o @ progressive_calls k ?o,
             nLastLineRead := k,
             nBufferStartLine := k,
             nBufferLines := 1\<rparr>"
  have lk0: "LoadScanline k ?o = Some (CE_None, ?sk0)"
    using kY Yo by (intro LoadScanline_progressive[OF wo po k0 _ nbo]) simp
  have rk0: "restarts (calls ?sk0) = 0"
    using k0 Lo Co by (simp add: restarts_progressive)
  have same: "map_option (\<lambda>(e, p', u). (e, p')) (IReadBlock b j p ?s2)
                = map_option (\<lambda>(e, p', u). (e, p')) (IReadBlock b j p ?sj)" for b p
    using sis sik Isk Io
    by (intro IReadBlock_buffered_same) (simp_all add: in_buffer_def same_image_def)
  show ?thesis
    apply (rule exI[of _ s], rule exI[of _ sk], rule exI[of _ ?s2], rule exI[of _ ?sj],
           rule exI[of _ ?sk0])
    using r lk l2 r2 lj lk0 rk0 same Isk Io by simp
qed

theorem restart_yields_same_row_witness:
  "wf_file prog4 \<and> \<not> interlaced prog4 \<and>
   list_all (valid_request (Open prog4 True)) [Load 0, WriteBlock 1 0 [9, 9]] \<and>
   (0::int) \<le> 1 \<and> (1::int) < 3 \<and> 3 < image_height prog4 \<and>
   (\<exists>s sk s2 sj.
       run [Load 0, WriteBlock 1 0 [9, 9]] (Open prog4 True) = Some s \<and>
       LoadScanline 3 s = Some (CE_None, sk) \<and>
       LoadScanline 1 sk = Some (CE_None, s2) \<and>
       restarts (new_calls sk s2) = 1 \<and>
       LoadScanline 1 (Open prog4 True) = Some (CE_None, sj) \<and>
       pabyBuffer s2 = Some [5, 6, 7, 8] \<and> pabyBuffer sj = Some [5, 6, 7, 8])"
proof -
  have a: "\<not> interlaced prog4"
    "list_all (valid_request (Open prog4 True)) [Load 0, WriteBlock 1 0 [9, 9]]"
    "(0::int) \<le> 1" "(1::int) < 3" "3 < image_height prog4"
    by (simp_all add: Open_def prog4_def)
  have row: "pixel_rows prog4 ! nat 1 = [5, 6, 7, 8]" by (simp add: prog4_def)
  from restart_yields_same_row[OF wf_file_prog4 a] row
  show ?thesis using wf_file_prog4 a by fastforce
qed

subsection \<open>Interlaced images\<close>

text \<open>
  Claim C5, as stated, on the 2-row interlaced example when the whole-image allocation
  fails: the first \<^verbatim>\<open>LoadScanline\<close> returns \<open>CE_Failure\<close> and no whole-image decode has
  been made.
\<close>

theorem interlaced_first_load_nomem:
  "bInterlaced lace2_nomem \<and> nLastLineRead lace2_nomem = - 1 \<and> calls lace2_nomem = [] \<and>
   LoadScanline 0 lace2_nomem = Some (CE_Failure, lace2_failed) \<and>
   image_decodes (calls lace2_failed) = 0"
  by (simp add: lace2_failed_def lace2_nomem_def lace2_def Open_def
        LoadScanline_def c_int_id size_t_id Restart_def)

text \<open>
  Claim C5, amended. On a well-formed interlaced dataset, whose image is then less
  than \<open>2 ^ 31\<close> bytes, with an empty cache and an unread stream, when the
  whole-image allocation succeeds, the first \<^verbatim>\<open>LoadScanline\<close> for any row of
  the image makes exactly one whole-image decode (no \<^verbatim>\<open>png_read_rows\<close>, no restart) and
  sets the buffer to rows 0 to height, holding the rows of the image one after the
  other; every later \<^verbatim>\<open>LoadScanline\<close> for a row of the
  image, and so any sequence of them, returns \<open>CE_None\<close> and leaves the state as it is.
\<close>

theorem interlaced_load_once:
  assumes wf: "wf s" and il: "bInterlaced s" and ok: "vsimalloc_ok s"
    and empty: "nBufferLines s = 0" and unread: "nLastLineRead s = - 1"
    and R: "0 \<le> R" "R < nRasterYSize s"
  shows "\<exists>s1. LoadScanline R s = Some (CE_None, s1) \<and>
           image_decodes (new_calls s s1) = 1 \<and>
           decoded_rows (new_calls s s1) = [] \<and>
           restarts (new_calls s s1) = 0 \<and>
           nBufferStartLine s1 = 0 \<and> nBufferLines s1 = nRasterYSize s \<and>
           pabyBuffer s1 = Some (concat (fpImage s)) \<and>
           (\<forall>R'. 0 \<le> R' \<and> R' < nRasterYSize s \<longrightarrow> LoadScanline R' s1 = Some (CE_None, s1)) \<and>
           (\<forall>rs. list_all (\<lambda>R'. 0 \<le> R' \<and> R' < nRasterYSize s) rs \<longrightarrow>
                 run (map Load rs) s1 = Some s1)"
proof -
  have nb: "\<not> in_buffer R s" using empty by (simp add: in_buffer_def)
  from LoadScanline_interlaced_ok[OF wf il nb ok]
  have l:
      "LoadScanline R s =
        Some (CE_None,
           s\<lparr>hPNG := \<lparr>row_number = length (fpImage s),
                      packing = (if nLastLineRead s \<noteq> - 1 then nBitDepth s < 8
                                 else packing (hPNG s))\<rparr>,
             nLastLineRead := nRasterYSize s - 1,
             nBufferStartLine := 0,
             nBufferLines := nRasterYSize s,
             pabyBuffer := Some (concat (fpImage s)),
             calls := calls s @ interlaced_calls s\<rparr>)" (is "_ = Some (_, ?s1)")
    by simp
  have nc: "new_calls s ?s1 = interlaced_calls s" by (simp add: new_calls_def)
  have again: "LoadScanline R' ?s1 = Some (CE_None, ?s1)"
    if "0 \<le> R' \<and> R' < nRasterYSize s" for R'
    using that by (intro LoadScanline_buffered) (simp add: in_buffer_def)
  have runs: "run (map Load rs) ?s1 = Some ?s1"
    if "list_all (\<lambda>R'. 0 \<le> R' \<and> R' < nRasterYSize s) rs" for rs
    using that
  proof (induction rs)
    case Nil
    show ?case by simp
  next
    case (Cons r rs)
    then have "LoadScanline r ?s1 = Some (CE_None, ?s1)" using again by simp
    then show ?case using Cons by simp
  qed
  show ?thesis
    using l nc ok unread again runs
    by (simp add: image_decodes_interlaced decoded_rows_interlaced restarts_interlaced)
qed

theorem interlaced_load_once_witness:
  "wf (Open lace2 True) \<and> bInterlaced (Open lace2 True) \<and> vsimalloc_ok (Open lace2 True) \<and>
   nBufferLines (Open lace2 True) = 0 \<and> nLastLineRead (Open lace2 True) = - 1 \<and>
   (0::int) \<le> 1 \<and> 1 < nRasterYSize (Open lace2 True) \<and>
   (\<exists>s1. LoadScanline 1 (Open lace2 True) = Some (CE_None, s1) \<and>
         image_decodes (new_calls (Open lace2 True) s1) = 1 \<and>
         nBufferStartLine s1 = 0 \<and> nBufferLines s1 = 2 \<and>
         LoadScanline 0 s1 = Some (CE_None, s1) \<and>
         run [Load 1, Load 0, Load 1] s1 = Some s1)"
proof -
  have w: "wf (Open lace2 True)" by (rule wf_Open[OF wf_file_lace2])
  have f: "bInterlaced (Open lace2 True)" "vsimalloc_ok (Open lace2 True)"
    "nBufferLines (Open lace2 True) = 0" "nLastLineRead (Open lace2 True) = - 1"
    "(0::int) \<le> 1" "1 < nRasterYSize (Open lace2 True)"
    by (simp_all add: Open_def lace2_def)
  have y: "nRasterYSize (Open lace2 True) = 2" by (simp add: Open_def lace2_def)
  from interlaced_load_once[OF w f] obtain s1 where
    a: "LoadScanline 1 (Open lace2 True) = Some (CE_None, s1)"
      "image_decodes (new_calls (Open lace2 True) s1) = 1"
      "nBufferStartLine s1 = 0" "nBufferLines s1 = nRasterYSize (Open lace2 True)"
    and b: "\<forall>R'. 0 \<le> R' \<and> R' < nRasterYSize (Open lace2 True) \<longrightarrow>
               LoadScanline R' s1 = Some (CE_None, s1)"
    and c: "\<forall>rs. list_all (\<lambda>R'. 0 \<le> R' \<and> R' < nRasterYSize (Open lace2 True)) rs \<longrightarrow>
                 run (map Load rs) s1 = Some s1"
    by blast
  have "LoadScanline 0 s1 = Some (CE_None, s1)" using b y by simp
  moreover have "run (map Load [1, 0, 1]) s1 = Some s1"
    using c y by (intro c[rule_format]) simp
  ultimately show ?thesis using w f a y by simp
qed




text \<open>
  Claim C7 at a failing allocation. The 2-row interlaced example starts with an empty
  cache, \<open>nBufferLines = 0\<close>. The failed call returns \<open>CE_Failure\<close>, but it has
  already set \<open>nBufferLines\<close> to the height, with no buffer: the range descriptors are
  not what they were. From then on every row counts as buffered: \<^verbatim>\<open>LoadScanline\<close>
  returns \<open>CE_None\<close> with a \<^verbatim>\<open>NULL\<close> buffer, a band read dereferences it, and
  \<^verbatim>\<open>FlushCache\<close>, which only acts on a buffer that exists, does not repair the range.
\<close>

theorem failed_allocation_corrupts_range:
  "nBufferStartLine lace2_nomem = 0 \<and> nBufferLines lace2_nomem = 0 \<and>
   pabyBuffer lace2_nomem = None \<and>
   LoadScanline 0 lace2_nomem = Some (CE_Failure, lace2_failed) \<and>
   nBufferStartLine lace2_failed = 0 \<and> nBufferLines lace2_failed = 2 \<and>
   pabyBuffer lace2_failed = None \<and>
   LoadScanline 0 lace2_failed = Some (CE_None, lace2_failed) \<and>
   IReadBlock 1 0 [0, 0] lace2_failed = None \<and>
   FlushCache lace2_failed = lace2_failed"
  by (simp add: lace2_failed_def lace2_nomem_def lace2_def Open_def
        LoadScanline_def c_int_id size_t_id Restart_def IReadBlock_def FlushCache_def)

subsection \<open>Round trips that hold\<close>

text \<open>
  The one-byte loops put each sample of a band where the interleaved layout has it and
  leave the other bands alone; so with one-byte samples, for any number of bands, writing
  every band of a row and reading a band back returns what was written for it. With a
  single band both directions are one \<^verbatim>\<open>memcpy\<close> of the row, for either sample size.
\<close>

lemma stride_distinct:
  fixes i j po :: int
  assumes "0 < po" "i < j"
  shows "scan + i * po < scan + j * po"
  using assms by (simp add: mult_strict_right_mono)

lemma write_strided1_effect:
  assumes "0 \<le> i" "0 \<le> scan" "0 < po" "X \<le> int (length pImage)"
    and "scan + (X - 1) * po < int (length buf)"
  shows "\<exists>b. write_strided1 buf scan po X i pImage = Some b \<and> length b = length buf \<and>
           (\<forall>j. i \<le> j \<and> j < X \<longrightarrow> b ! nat (scan + j * po) = pImage ! nat j) \<and>
           (\<forall>k. (\<forall>j. i \<le> j \<and> j < X \<longrightarrow> k \<noteq> nat (scan + j * po)) \<longrightarrow> b ! k = buf ! k)"
  using assms
proof (induction buf scan po X i pImage rule: write_strided1.induct)
  case (1 buf scan po X i pImage)
  show ?case
  proof (cases "i < X")
    case False
    then show ?thesis by (subst write_strided1.simps) auto
  next
    case True
    have po0: "0 \<le> po" using "1.prems" by simp
    have le: "i * po \<le> (X - 1) * po" using stride_bound[OF "1.prems"(1) True po0] .
    have nn: "0 \<le> i * po" using "1.prems" by simp
    let ?p = "nat (scan + i * po)"
    let ?b1 = "buf[?p := pImage ! nat i]"
    have pin: "?p < length buf" using nn le "1.prems" by linarith
    have pk: "peek pImage i = Some (pImage ! nat i)"
      using "1.prems" True by (intro peek_Some) linarith+
    have po: "poke buf (scan + i * po) (pImage ! nat i) = Some ?b1"
      using nn le "1.prems" by (intro poke_Some) linarith+
    from "1.IH"[OF True pk po] "1.prems"
    obtain b where w: "write_strided1 ?b1 scan po X (i + 1) pImage = Some b"
      and lb: "length b = length buf"
      and set: "\<forall>j. i + 1 \<le> j \<and> j < X \<longrightarrow> b ! nat (scan + j * po) = pImage ! nat j"
      and keep: "\<forall>k. (\<forall>j. i + 1 \<le> j \<and> j < X \<longrightarrow> k \<noteq> nat (scan + j * po)) \<longrightarrow> b ! k = ?b1 ! k"
      by auto
    have later: "?p \<noteq> nat (scan + j * po)" if "i + 1 \<le> j" for j
    proof -
      have "scan + i * po < scan + j * po"
        using that "1.prems"(3) by (intro stride_distinct) simp_all
      moreover have "0 \<le> scan + i * po" using nn "1.prems" by simp
      ultimately show ?thesis by linarith
    qed
    have here: "b ! ?p = pImage ! nat i"
    proof -
      have "b ! ?p = ?b1 ! ?p" using keep later by simp
      then show ?thesis using pin by simp
    qed
    have set': "\<forall>j. i \<le> j \<and> j < X \<longrightarrow> b ! nat (scan + j * po) = pImage ! nat j"
    proof (intro allI impI)
      fix j assume j: "i \<le> j \<and> j < X"
      show "b ! nat (scan + j * po) = pImage ! nat j"
      proof (cases "j = i")
        case True
        then show ?thesis using here by simp
      next
        case False
        then show ?thesis using set j by simp
      qed
    qed
    have keep': "\<forall>k. (\<forall>j. i \<le> j \<and> j < X \<longrightarrow> k \<noteq> nat (scan + j * po)) \<longrightarrow> b ! k = buf ! k"
    proof (intro allI impI)
      fix k assume k: "\<forall>j. i \<le> j \<and> j < X \<longrightarrow> k \<noteq> nat (scan + j * po)"
      then have "k \<noteq> ?p" using True by auto
      moreover have "b ! k = ?b1 ! k" using keep k by simp
      ultimately show "b ! k = buf ! k" by simp
    qed
    have "write_strided1 buf scan po X i pImage = Some b"
      using True pk po w by (subst write_strided1.simps) simp
    then show ?thesis using lb set' keep' by blast
  qed
qed

lemma read_strided1_effect:
  assumes "0 \<le> i" "0 \<le> scan" "0 \<le> po" "X \<le> int (length pImage)"
    and "scan + (X - 1) * po < int (length buf)"
  shows "\<exists>p. read_strided1 buf scan po X i pImage = Some p \<and> length p = length pImage \<and>
           (\<forall>j. i \<le> j \<and> j < X \<longrightarrow> p ! nat j = buf ! nat (scan + j * po)) \<and>
           (\<forall>k. k < nat i \<longrightarrow> p ! k = pImage ! k)"
  using assms
proof (induction buf scan po X i pImage rule: read_strided1.induct)
  case (1 buf scan po X i pImage)
  show ?case
  proof (cases "i < X")
    case False
    then show ?thesis by (subst read_strided1.simps) auto
  next
    case True
    have le: "i * po \<le> (X - 1) * po" using stride_bound[OF "1.prems"(1) True "1.prems"(3)] .
    have nn: "0 \<le> i * po" using "1.prems" by simp
    let ?v = "buf ! nat (scan + i * po)"
    let ?p1 = "pImage[nat i := ?v]"
    have iin: "nat i < length pImage" using "1.prems" True by linarith
    have pk: "peek buf (scan + i * po) = Some ?v"
      using nn le "1.prems" by (intro peek_Some) linarith+
    have po: "poke pImage i ?v = Some ?p1"
      using "1.prems" True by (intro poke_Some) linarith+
    from "1.IH"[OF True pk po] "1.prems"
    obtain p where r: "read_strided1 buf scan po X (i + 1) ?p1 = Some p"
      and lp: "length p = length pImage"
      and got: "\<forall>j. i + 1 \<le> j \<and> j < X \<longrightarrow> p ! nat j = buf ! nat (scan + j * po)"
      and keep: "\<forall>k. k < nat (i + 1) \<longrightarrow> p ! k = ?p1 ! k"
      by auto
    have here: "p ! nat i = ?v"
    proof -
      have "nat i < nat (i + 1)" using "1.prems" by simp
      then have "p ! nat i = ?p1 ! nat i" using keep by simp
      then show ?thesis using iin by simp
    qed
    have got': "\<forall>j. i \<le> j \<and> j < X \<longrightarrow> p ! nat j = buf ! nat (scan + j * po)"
    proof (intro allI impI)
      fix j assume j: "i \<le> j \<and> j < X"
      show "p ! nat j = buf ! nat (scan + j * po)"
      proof (cases "j = i")
        case True
        then show ?thesis using here by simp
      next
        case False
        then show ?thesis using got j by simp
      qed
    qed
    have keep': "\<forall>k. k < nat i \<longrightarrow> p ! k = pImage ! k"
    proof (intro allI impI)
      fix k assume k: "k < nat i"
      then have "k < nat (i + 1)" by simp
      then have "p ! k = ?p1 ! k" using keep by simp
      then show "p ! k = pImage ! k" using k by simp
    qed
    have "read_strided1 buf scan po X i pImage = Some p"
      using True pk po r by (subst read_strided1.simps) simp
    then show ?thesis using lp got' keep' by blast
  qed
qed

lemma band_holds_iff:
  "band_holds buf nB X b d \<longleftrightarrow> (\<forall>j. 0 \<le> j \<and> j < X \<longrightarrow> buf ! nat ((b - 1) + j * nB) = d ! nat j)"
  by (auto simp: band_holds_def list_all_iff)

lemma band_positions_differ:
  fixes b b' j j' nB :: int
  assumes "1 \<le> b" "b \<le> nB" "1 \<le> b'" "b' \<le> nB" "b \<noteq> b'" "0 \<le> j" "0 \<le> j'"
  shows "nat ((b - 1) + j * nB) \<noteq> nat ((b' - 1) + j' * nB)"
proof
  assume eq: "nat ((b - 1) + j * nB) = nat ((b' - 1) + j' * nB)"
  have nB: "0 < nB" using assms by linarith
  have "0 \<le> (b - 1) + j * nB" "0 \<le> (b' - 1) + j' * nB" using assms nB by simp_all
  with eq have e: "(b - 1) + j * nB = (b' - 1) + j' * nB" by linarith
  have "((b - 1) + j * nB) mod nB = b - 1" using assms by simp
  moreover have "((b' - 1) + j' * nB) mod nB = b' - 1" using assms by simp
  ultimately show False using e assms(5) by simp
qed

text \<open>One band written into a buffered row of one-byte samples.\<close>

lemma one_byte_write:
  assumes lb: "int (length buf) = nB * X" and ld: "int (length d) = X"
    and b: "1 \<le> b" "b \<le> nB" and X0: "0 \<le> X"
  shows "\<exists>buf'. (if 1 = nB * 1 then write_bulk buf (1 * (b - 1)) 1 X d
                  else write_strided1 buf (1 * (b - 1)) (nB * 1) X 0 d) = Some buf' \<and>
           length buf' = length buf \<and> band_holds buf' nB X b d \<and>
           (\<forall>b' d'. 1 \<le> b' \<and> b' \<le> nB \<and> b' \<noteq> b \<and> band_holds buf nB X b' d'
                    \<longrightarrow> band_holds buf' nB X b' d')"
proof (cases "nB = 1")
  case True
  then have b1: "b = 1" using b by simp
  have len: "length d = length buf" using lb ld True by simp
  have "write_bulk buf 0 1 X d = Some d"
    using len ld X0 by (simp add: write_bulk_def memcpy_def peek_bytes_def poke_bytes_def)
  moreover have "band_holds d 1 X 1 d" by (simp add: band_holds_iff)
  ultimately show ?thesis using True b1 len by auto
next
  case False
  then have nB2: "2 \<le> nB" using b by linarith
  have bound: "(b - 1) + (X - 1) * nB < int (length buf)"
    using b lb by (simp add: algebra_simps)
  from write_strided1_effect[of 0 "b - 1" nB X d buf] b nB2 ld bound
  obtain buf' where w: "write_strided1 buf (b - 1) nB X 0 d = Some buf'"
    and l: "length buf' = length buf"
    and set: "\<forall>j. 0 \<le> j \<and> j < X \<longrightarrow> buf' ! nat ((b - 1) + j * nB) = d ! nat j"
    and keep: "\<forall>k. (\<forall>j. 0 \<le> j \<and> j < X \<longrightarrow> k \<noteq> nat ((b - 1) + j * nB)) \<longrightarrow> buf' ! k = buf ! k"
    by auto
  have h: "band_holds buf' nB X b d" using set by (simp add: band_holds_iff)
  have others: "band_holds buf' nB X b' d'"
    if "1 \<le> b' \<and> b' \<le> nB \<and> b' \<noteq> b \<and> band_holds buf nB X b' d'" for b' d'
    unfolding band_holds_iff
  proof (intro allI impI)
    fix j' assume j': "0 \<le> j' \<and> j' < X"
    have "\<forall>j. 0 \<le> j \<and> j < X \<longrightarrow> nat ((b' - 1) + j' * nB) \<noteq> nat ((b - 1) + j * nB)"
      using band_positions_differ[of b' nB b j'] that b j' by auto
    then have "buf' ! nat ((b' - 1) + j' * nB) = buf ! nat ((b' - 1) + j' * nB)"
      using keep by simp
    then show "buf' ! nat ((b' - 1) + j' * nB) = d' ! nat j'"
      using that j' by (simp add: band_holds_iff)
  qed
  show ?thesis using False w l h others by auto
qed

text \<open>One band read from a buffered row of one-byte samples that holds it.\<close>

lemma one_byte_read:
  assumes lb: "int (length buf) = nB * X" and ld: "int (length d) = X"
    and lo: "int (length out) = X"
    and b: "1 \<le> b" "b \<le> nB" and X0: "0 \<le> X"
    and h: "band_holds buf nB X b d"
  shows "(if 1 = nB * 1 then read_bulk buf (1 * (b - 1)) 1 X out
          else read_strided1 buf (1 * (b - 1)) (nB * 1) X 0 out) = Some d"
proof (cases "nB = 1")
  case True
  then have b1: "b = 1" using b by simp
  have len: "length buf = length out" "length buf = length d" using lb ld lo True by simp_all
  have "read_bulk buf 0 1 X out = Some buf"
    using len lo X0 by (simp add: read_bulk_def memcpy_def peek_bytes_def poke_bytes_def)
  moreover have "buf = d"
  proof (rule nth_equalityI)
    show "length buf = length d" by (rule len)
  next
    fix k assume "k < length buf"
    then have "0 \<le> int k \<and> int k < X" using lb True by simp
    then have "buf ! nat ((b - 1) + int k * nB) = d ! nat (int k)"
      using h by (simp add: band_holds_iff)
    then show "buf ! k = d ! k" using True b1 by simp
  qed
  ultimately show ?thesis using True b1 by simp
next
  case False
  then have nB2: "2 \<le> nB" using b by linarith
  have bound: "(b - 1) + (X - 1) * nB < int (length buf)"
    using b lb by (simp add: algebra_simps)
  from read_strided1_effect[of 0 "b - 1" nB X out buf] b nB2 lo bound
  obtain p where r: "read_strided1 buf (b - 1) nB X 0 out = Some p"
    and l: "length p = length out"
    and got: "\<forall>j. 0 \<le> j \<and> j < X \<longrightarrow> p ! nat j = buf ! nat ((b - 1) + j * nB)"
    by auto
  have "p = d"
  proof (rule nth_equalityI)
    show "length p = length d" using l lo ld by simp
  next
    fix k assume "k < length p"
    then have k: "0 \<le> int k \<and> int k < X" using l lo by simp
    have "p ! nat (int k) = buf ! nat ((b - 1) + int k * nB)" using got k by blast
    also have "\<dots> = d ! nat (int k)" using h k by (simp only: band_holds_iff)
    finally show "p ! k = d ! k" by simp
  qed
  then show ?thesis using False r by simp
qed

lemma ready_facts:
  assumes inv: "progressive_inv s" and ib: "in_buffer r s" and pb: "pabyBuffer s = Some buf"
  shows "nBufferStartLine s = r" and "int (length buf) = rowbytes s" and "0 \<le> nRasterXSize s"
    and "1 \<le> nBands s"
  using assms
  by (auto simp: progressive_inv_def single_row_cache_def in_buffer_def wf_def)

lemma ready_update:
  assumes inv: "progressive_inv s" and ib: "in_buffer r s" and pb: "pabyBuffer s = Some buf"
    and len: "length buf' = length buf"
  shows "progressive_inv (s\<lparr>pabyBuffer := Some buf'\<rparr>)" and "in_buffer r (s\<lparr>pabyBuffer := Some buf'\<rparr>)"
  using assms
  by (auto simp: progressive_inv_def single_row_cache_def in_buffer_def wf_def forward_only_def)

lemma IWriteBlock_one_byte:
  assumes inv: "progressive_inv s" and ib: "in_buffer r s" and d8: "nBitDepth s \<noteq> 16"
    and b: "1 \<le> b" "b \<le> nBands s" and ld: "int (length d) = nRasterXSize s"
    and pb: "pabyBuffer s = Some buf"
  shows "\<exists>buf'. IWriteBlock b r d s = Some (CE_None, s\<lparr>pabyBuffer := Some buf'\<rparr>) \<and>
           length buf' = length buf \<and>
           band_holds buf' (nBands s) (nRasterXSize s) b d \<and>
           (\<forall>b' d'. 1 \<le> b' \<and> b' \<le> nBands s \<and> b' \<noteq> b \<and>
                    band_holds buf (nBands s) (nRasterXSize s) b' d'
                    \<longrightarrow> band_holds buf' (nBands s) (nRasterXSize s) b' d')"
proof -
  note f = ready_facts[OF inv ib pb]
  have lb: "int (length buf) = nBands s * nRasterXSize s"
    using f(2) d8 by (simp add: rowbytes_def)
  from one_byte_write[OF lb ld b f(3)] obtain buf' where
    w: "(if 1 = nBands s * 1 then write_bulk buf (1 * (b - 1)) 1 (nRasterXSize s) d
         else write_strided1 buf (1 * (b - 1)) (nBands s * 1) (nRasterXSize s) 0 d) = Some buf'"
    and rest: "length buf' = length buf" "band_holds buf' (nBands s) (nRasterXSize s) b d"
      "\<forall>b' d'. 1 \<le> b' \<and> b' \<le> nBands s \<and> b' \<noteq> b \<and>
                    band_holds buf (nBands s) (nRasterXSize s) b' d'
                    \<longrightarrow> band_holds buf' (nBands s) (nRasterXSize s) b' d'"
    by blast
  have "IWriteBlock b r d s = Some (CE_None, s\<lparr>pabyBuffer := Some buf'\<rparr>)"
    using w d8 pb f(1) LoadScanline_buffered[OF ib]
    by (simp add: IWriteBlock_def Let_def split: if_splits)
  then show ?thesis using rest by blast
qed

lemma IReadBlock_one_byte:
  assumes inv: "progressive_inv s" and ib: "in_buffer r s" and d8: "nBitDepth s \<noteq> 16"
    and b: "1 \<le> b" "b \<le> nBands s" and ld: "int (length d) = nRasterXSize s"
    and lo: "int (length out) = nRasterXSize s"
    and pb: "pabyBuffer s = Some buf"
    and h: "band_holds buf (nBands s) (nRasterXSize s) b d"
  shows "IReadBlock b r out s = Some (CE_None, d, s)"
proof -
  note f = ready_facts[OF inv ib pb]
  have lb: "int (length buf) = nBands s * nRasterXSize s"
    using f(2) d8 by (simp add: rowbytes_def)
  from one_byte_read[OF lb ld lo b f(3) h]
  show ?thesis
    using d8 pb f(1) LoadScanline_buffered[OF ib]
    by (simp add: IReadBlock_def Let_def split: if_splits)
qed

lemma write_bands_one_byte:
  assumes "progressive_inv s" and "in_buffer r s" and "nBitDepth s \<noteq> 16"
    and "pabyBuffer s = Some buf" and "distinct bs"
    and "\<forall>b \<in> set bs. 1 \<le> b \<and> b \<le> nBands s \<and> int (length (data b)) = nRasterXSize s"
  shows "\<exists>buf'. run (map (\<lambda>b. WriteBlock b r (data b)) bs) s = Some (s\<lparr>pabyBuffer := Some buf'\<rparr>) \<and>
           length buf' = length buf \<and>
           (\<forall>b \<in> set bs. band_holds buf' (nBands s) (nRasterXSize s) b (data b)) \<and>
           (\<forall>b' d'. 1 \<le> b' \<and> b' \<le> nBands s \<and> b' \<notin> set bs \<and>
                    band_holds buf (nBands s) (nRasterXSize s) b' d'
                    \<longrightarrow> band_holds buf' (nBands s) (nRasterXSize s) b' d')"
  using assms
proof (induction bs arbitrary: s buf)
  case Nil
  then show ?case by (intro exI[of _ buf]) simp
next
  case (Cons b bs)
  have bv: "1 \<le> b" "b \<le> nBands s" "int (length (data b)) = nRasterXSize s"
    using Cons.prems(6) by simp_all
  from IWriteBlock_one_byte[OF Cons.prems(1,2,3) bv Cons.prems(4)] obtain buf1 where
    w: "IWriteBlock b r (data b) s = Some (CE_None, s\<lparr>pabyBuffer := Some buf1\<rparr>)"
    and l1: "length buf1 = length buf"
    and h1: "band_holds buf1 (nBands s) (nRasterXSize s) b (data b)"
    and k1: "\<forall>b' d'. 1 \<le> b' \<and> b' \<le> nBands s \<and> b' \<noteq> b \<and>
                    band_holds buf (nBands s) (nRasterXSize s) b' d'
                    \<longrightarrow> band_holds buf1 (nBands s) (nRasterXSize s) b' d'"
    by blast
  let ?s1 = "s\<lparr>pabyBuffer := Some buf1\<rparr>"
  note r1 = ready_update[OF Cons.prems(1,2,4) l1]
  have st: "nBands ?s1 = nBands s" "nRasterXSize ?s1 = nRasterXSize s" "nBitDepth ?s1 \<noteq> 16"
    "pabyBuffer ?s1 = Some buf1"
    using Cons.prems(3) by simp_all
  have d: "distinct bs" "b \<notin> set bs" using Cons.prems(5) by simp_all
  have v: "\<forall>b \<in> set bs. 1 \<le> b \<and> b \<le> nBands ?s1 \<and> int (length (data b)) = nRasterXSize ?s1"
    using Cons.prems(6) by simp
  from Cons.IH[OF r1 st(3,4) d(1) v] obtain buf' where
    rn: "run (map (\<lambda>b. WriteBlock b r (data b)) bs) ?s1 = Some (?s1\<lparr>pabyBuffer := Some buf'\<rparr>)"
    and l: "length buf' = length buf1"
    and hs: "\<forall>b \<in> set bs. band_holds buf' (nBands s) (nRasterXSize s) b (data b)"
    and ks: "\<forall>b' d'. 1 \<le> b' \<and> b' \<le> nBands s \<and> b' \<notin> set bs \<and>
                    band_holds buf1 (nBands s) (nRasterXSize s) b' d'
                    \<longrightarrow> band_holds buf' (nBands s) (nRasterXSize s) b' d'"
    by auto
  have hb: "band_holds buf' (nBands s) (nRasterXSize s) b (data b)"
    using ks bv d(2) h1 by blast
  have keep: "\<forall>b' d'. 1 \<le> b' \<and> b' \<le> nBands s \<and> b' \<notin> set (b # bs) \<and>
                    band_holds buf (nBands s) (nRasterXSize s) b' d'
                    \<longrightarrow> band_holds buf' (nBands s) (nRasterXSize s) b' d'"
    using k1 ks by auto
  have "run (map (\<lambda>b. WriteBlock b r (data b)) (b # bs)) s = Some (s\<lparr>pabyBuffer := Some buf'\<rparr>)"
    using w rn by simp
  then show ?case using l l1 hb hs keep by (intro exI[of _ buf']) simp
qed

lemma IWriteBlock_after_load:
  assumes "LoadScanline r s = Some (CE_None, s1)" and "in_buffer r s1" and "same_image s s1"
  shows "IWriteBlock b r d s = IWriteBlock b r d s1"
  using assms by (simp add: IWriteBlock_def LoadScanline_buffered same_image_def)

lemma one_byte_round_trip:
  assumes inv: "progressive_inv s" and d8: "nBitDepth s \<noteq> 16"
    and r: "0 \<le> r" "r < nRasterYSize s"
    and ld: "\<forall>b. 1 \<le> b \<and> b \<le> nBands s \<longrightarrow> int (length (data b)) = nRasterXSize s"
  shows "\<exists>s'. run (map (\<lambda>b. WriteBlock b r (data b)) [1 .. nBands s]) s = Some s' \<and>
           (\<forall>b out. 1 \<le> b \<and> b \<le> nBands s \<and> int (length out) = nRasterXSize s \<longrightarrow>
                    IReadBlock b r out s' = Some (CE_None, data b, s'))"
proof -
  have wf: "wf s" and prog: "\<not> bInterlaced s" and cache: "single_row_cache s"
    using inv by (simp_all add: progressive_inv_def)
  have nB: "1 \<le> nBands s" using wf by (simp add: wf_def)
  from progressive_row_ready[OF wf prog cache r] obtain s1 buf where
    l: "LoadScanline r s = Some (CE_None, s1)" and si: "same_image s s1"
    and st: "nBufferStartLine s1 = r" "nBufferLines s1 = 1" and pb: "pabyBuffer s1 = Some buf"
    by blast
  from Load_progressive[OF inv r] l have inv1: "progressive_inv s1" by simp
  have ib1: "in_buffer r s1" using st by (simp add: in_buffer_def)
  have eqs: "nBands s1 = nBands s" "nRasterXSize s1 = nRasterXSize s" "nBitDepth s1 \<noteq> 16"
    using si d8 by (simp_all add: same_image_def)
  let ?W = "\<lambda>b. WriteBlock b r (data b)"
  have first: "[1 .. nBands s] = 1 # [2 .. nBands s]"
    using nB by (subst upto_rec1) simp_all
  have "perform (?W 1) s = perform (?W 1) s1"
    using IWriteBlock_after_load[OF l ib1 si] by simp
  then have same_run: "run (map ?W [1 .. nBands s]) s = run (map ?W [1 .. nBands s]) s1"
    unfolding first by simp
  have v: "\<forall>b \<in> set [1 .. nBands s1]. 1 \<le> b \<and> b \<le> nBands s1 \<and>
             int (length (data b)) = nRasterXSize s1"
    using ld eqs by simp
  from write_bands_one_byte[OF inv1 ib1 eqs(3) pb distinct_upto v] eqs obtain buf' where
    rn: "run (map ?W [1 .. nBands s]) s1 = Some (s1\<lparr>pabyBuffer := Some buf'\<rparr>)"
    and len: "length buf' = length buf"
    and hs: "\<forall>b \<in> set [1 .. nBands s]. band_holds buf' (nBands s) (nRasterXSize s) b (data b)"
    by auto
  let ?s' = "s1\<lparr>pabyBuffer := Some buf'\<rparr>"
  note r' = ready_update[OF inv1 ib1 pb len]
  have rd: "IReadBlock b r out ?s' = Some (CE_None, data b, ?s')"
    if "1 \<le> b \<and> b \<le> nBands s \<and> int (length out) = nRasterXSize s" for b out
  proof -
    have h: "band_holds buf' (nBands ?s') (nRasterXSize ?s') b (data b)"
      using hs that eqs by simp
    show ?thesis
      using that ld eqs
      by (intro IReadBlock_one_byte[OF r' _ _ _ _ _ _ h]) simp_all
  qed
  show ?thesis using same_run rn rd by auto
qed

lemma single_band_round_trip:
  assumes inv: "progressive_inv s" and one: "nBands s = 1"
    and r: "0 \<le> r" "r < nRasterYSize s"
    and ld: "int (length d) = (if nBitDepth s = 16 then 2 else 1) * nRasterXSize s"
    and lo: "int (length out) = (if nBitDepth s = 16 then 2 else 1) * nRasterXSize s"
  shows "\<exists>s'. run [WriteBlock 1 r d] s = Some s' \<and> IReadBlock 1 r out s' = Some (CE_None, d, s')"
proof -
  have wf: "wf s" and prog: "\<not> bInterlaced s" and cache: "single_row_cache s"
    using inv by (simp_all add: progressive_inv_def)
  from progressive_row_ready[OF wf prog cache r] obtain s1 buf where
    l: "LoadScanline r s = Some (CE_None, s1)" and si: "same_image s s1"
    and st: "nBufferStartLine s1 = r" "nBufferLines s1 = 1" and pb: "pabyBuffer s1 = Some buf"
    and lb: "int (length buf) = rowbytes s"
    by blast
  have X0: "0 \<le> nRasterXSize s" using wf by (simp add: wf_def)
  have eqs: "nBands s1 = 1" "nRasterXSize s1 = nRasterXSize s" "nBitDepth s1 = nBitDepth s"
    using si one by (simp_all add: same_image_def)
  have len: "length d = length buf" "length out = length buf"
    using lb ld lo one by (simp_all add: rowbytes_def split: if_splits)
  let ?n = "(if nBitDepth s = 16 then 2 else 1) * nRasterXSize s"
  have n: "nat ?n = length buf" "0 \<le> ?n" "?n = int (length buf)"
    using lb one X0 by (simp_all add: rowbytes_def split: if_splits)
  have wb: "write_bulk buf 0 (if nBitDepth s = 16 then 2 else 1) (nRasterXSize s) d = Some d"
    using len n by (simp add: write_bulk_def memcpy_def peek_bytes_def poke_bytes_def)
  have w: "IWriteBlock 1 r d s = Some (CE_None, s1\<lparr>pabyBuffer := Some d\<rparr>)"
    using l pb st eqs wb by (simp add: IWriteBlock_def Let_def)
  let ?s' = "s1\<lparr>pabyBuffer := Some d\<rparr>"
  have ib: "in_buffer r ?s'" using st by (simp add: in_buffer_def)
  have rb: "read_bulk d 0 (if nBitDepth s = 16 then 2 else 1) (nRasterXSize s) out = Some d"
    using len n by (simp add: read_bulk_def memcpy_def peek_bytes_def poke_bytes_def)
  have "IReadBlock 1 r out ?s' = Some (CE_None, d, ?s')"
    using LoadScanline_buffered[OF ib] st eqs rb by (simp add: IReadBlock_def Let_def)
  then show ?thesis using w by simp
qed

subsection \<open>Two-byte samples\<close>

text \<open>
  Claim C2 at two-byte samples. On an image of one row of two pixels, 2 bands, 16 bits:
  writing band 1 and band 2 of row 0 and reading band 1 back returns the first three
  bytes written and leaves the fourth byte of the caller's block untouched. Pixel \<open>i\<close>
  is copied between bytes \<open>i\<close> and \<open>i + 1\<close> of the caller's block, not \<open>2 i\<close> and
  \<open>2 i + 1\<close>, in both directions. The same requests on the 8-bit example with 2 bands
  interleave the two bands in the row buffer and return what was written.
\<close>

theorem two_byte_round_trip_loses_samples:
  "list_all (valid_request (Open deep2 True)) [WriteBlock 1 0 [1, 2, 3, 4], WriteBlock 2 0 [5, 6, 7, 8]] \<and>
   map_option pabyBuffer (run [WriteBlock 1 0 [1, 2, 3, 4], WriteBlock 2 0 [5, 6, 7, 8]] (Open deep2 True))
     = Some (Some [1, 2, 5, 6, 2, 3, 6, 7]) \<and>
   map_option (fst \<circ> snd)
     (Option.bind (run [WriteBlock 1 0 [1, 2, 3, 4], WriteBlock 2 0 [5, 6, 7, 8]] (Open deep2 True))
        (IReadBlock 1 0 [0, 0, 0, 0]))
     = Some [1, 2, 3, 0] \<and>
   list_all (valid_request (Open prog4 True)) [WriteBlock 1 0 [21, 22], WriteBlock 2 0 [31, 32]] \<and>
   map_option pabyBuffer (run [WriteBlock 1 0 [21, 22], WriteBlock 2 0 [31, 32]] (Open prog4 True))
     = Some (Some [21, 31, 22, 32]) \<and>
   map_option (fst \<circ> snd)
     (Option.bind (run [WriteBlock 1 0 [21, 22], WriteBlock 2 0 [31, 32]] (Open prog4 True))
        (IReadBlock 1 0 [0, 0]))
     = Some [21, 22] \<and>
   map_option (fst \<circ> snd)
     (Option.bind (run [WriteBlock 1 0 [21, 22], WriteBlock 2 0 [31, 32]] (Open prog4 True))
        (IReadBlock 2 0 [0, 0]))
     = Some [31, 32]"
  by (simp add: deep2_def prog4_def Open_def IWriteBlock_def IReadBlock_def LoadScanline_def c_int_id size_t_id
        read_till.simps png_read_rows_def poke_bytes_def
        write_strided1.simps read_strided1.simps
        write_strided2.simps read_strided2.simps peek_def poke_def)






end
